theory Spec2Isabelle
  imports Main
begin


text \<open>
  A model of the route codegen for the Next.js app router: the run-time path builder
  (\<open>buildPath\<close>, \<open>extractParamKeys\<close>, \<open>isDynamicRoute\<close>, \<open>routeToRegex\<close>,
  \<open>matchRoute\<close>) and the scanner (\<open>scanRoutes\<close>, \<open>usesRouteCreator\<close>,
  \<open>routePathToRegexString\<close>), each function translated from its source, followed
  by the properties the specification states about them.
\<close>

section \<open>Strings, errors and the URI built-ins\<close>

text \<open>
  A JavaScript string is modelled as the \<^typ>\<open>string\<close> of the bytes of its UTF-8
  encoding. Every regular expression of the program names ASCII characters only (and
  negated classes of them), so scanning bytes and scanning UTF-16 code units find the
  same matches. A string with a lone surrogate is held as the bytes of its generalized
  UTF-8 form, which is not well-formed UTF-8; \<open>encodeURIComponent\<close> throws URIError
  on it, and so does the model on every byte string that is not well-formed.

  Everything the program throws is a value of \<open>error\<close>.
\<close>

datatype error =
    MissingParam string string
  | URIError
  | SyntaxError
  | ENOTDIR string

abbreviation BSL :: char where
  "BSL \<equiv> CHR 0x5C"

text \<open>
  \<open>encodeURIComponent\<close> (ECMA-262, Encode with the unreserved set
  \<open>A-Z a-z 0-9 - _ . ! ~ * ' ( )\<close>): every other byte of the UTF-8 encoding becomes
  \<open>%XX\<close> with upper-case hexadecimal digits. \<open>hex_digit\<close> is only ever asked
  for the two halves of a byte, both below 16.
\<close>

definition uri_unreserved :: "char \<Rightarrow> bool" where
  "uri_unreserved c =
     (let n = (of_char c :: nat)
      in (65 \<le> n \<and> n \<le> 90) \<or> (97 \<le> n \<and> n \<le> 122) \<or> (48 \<le> n \<and> n \<le> 57)
         \<or> c \<in> set ''-_.!~*()'' \<or> c = CHR 0x27)"

definition hex_digit :: "nat \<Rightarrow> char" where
  "hex_digit n = ''0123456789ABCDEF'' ! n"

definition pct_encode :: "char \<Rightarrow> string" where
  "pct_encode c =
     [CHR ''%'', hex_digit ((of_char c :: nat) div 16), hex_digit ((of_char c :: nat) mod 16)]"

definition percent_encode :: "string \<Rightarrow> string" where
  "percent_encode s = concat (map (\<lambda>c. if uri_unreserved c then [c] else pct_encode c) s)"

text \<open>
  \<open>decodeURIComponent\<close> (ECMA-262, Decode with an empty reserved set). A \<open>%\<close> must
  be followed by two hexadecimal digits; an octet below 0x80 is the character itself;
  any other octet must start a well-formed UTF-8 sequence whose continuation octets are
  all written as \<open>%XX\<close> too. Anything else throws URIError: here \<open>None\<close>, turned into
  the error by \<open>decodeURIComponent\<close>.
\<close>

definition hex_value :: "char \<Rightarrow> nat option" where
  "hex_value c =
     (let n = (of_char c :: nat)
      in if 48 \<le> n \<and> n \<le> 57 then Some (n - 48)
         else if 65 \<le> n \<and> n \<le> 70 then Some (n - 55)
         else if 97 \<le> n \<and> n \<le> 102 then Some (n - 87)
         else None)"

datatype uri_token = Raw char | Octet nat

fun pct_tokens :: "string \<Rightarrow> uri_token list option" where
  "pct_tokens [] = Some []"
| "pct_tokens (c # cs) =
     (if c = CHR ''%'' then
        (case cs of
           h1 # h2 # rest \<Rightarrow>
             (case hex_value h1 of
                None \<Rightarrow> None
              | Some a \<Rightarrow>
                  (case hex_value h2 of
                     None \<Rightarrow> None
                   | Some b \<Rightarrow> map_option (Cons (Octet (16 * a + b))) (pct_tokens rest)))
         | _ \<Rightarrow> None)
      else map_option (Cons (Raw c)) (pct_tokens cs))"

definition is_cont :: "nat \<Rightarrow> bool" where
  "is_cont b = (128 \<le> b \<and> b < 192)"

definition valid3 :: "nat \<Rightarrow> nat \<Rightarrow> nat \<Rightarrow> bool" where
  "valid3 b b1 b2 =
     (is_cont b1 \<and> is_cont b2 \<and> (b = 224 \<longrightarrow> 160 \<le> b1) \<and> (b = 237 \<longrightarrow> b1 < 160))"

definition valid4 :: "nat \<Rightarrow> nat \<Rightarrow> nat \<Rightarrow> nat \<Rightarrow> bool" where
  "valid4 b b1 b2 b3 =
     (is_cont b1 \<and> is_cont b2 \<and> is_cont b3 \<and> (b = 240 \<longrightarrow> 144 \<le> b1) \<and> (b = 244 \<longrightarrow> b1 < 144))"

fun utf8_octets :: "uri_token list \<Rightarrow> string option" where
  "utf8_octets [] = Some []"
| "utf8_octets (Raw c # ts) = map_option (Cons c) (utf8_octets ts)"
| "utf8_octets (Octet b # ts) =
     (if b < 128 then map_option (Cons (char_of b)) (utf8_octets ts)
      else if 194 \<le> b \<and> b < 224 then
        (case ts of
           Octet b1 # r \<Rightarrow>
             if is_cont b1 then map_option (\<lambda>x. char_of b # char_of b1 # x) (utf8_octets r)
             else None
         | _ \<Rightarrow> None)
      else if 224 \<le> b \<and> b < 240 then
        (case ts of
           Octet b1 # Octet b2 # r \<Rightarrow>
             if valid3 b b1 b2
             then map_option (\<lambda>x. char_of b # char_of b1 # char_of b2 # x) (utf8_octets r)
             else None
         | _ \<Rightarrow> None)
      else if 240 \<le> b \<and> b < 245 then
        (case ts of
           Octet b1 # Octet b2 # Octet b3 # r \<Rightarrow>
             if valid4 b b1 b2 b3
             then map_option (\<lambda>x. char_of b # char_of b1 # char_of b2 # char_of b3 # x)
                    (utf8_octets r)
             else None
         | _ \<Rightarrow> None)
      else None)"

definition decodeURIComponent :: "string \<Rightarrow> error + string" where
  "decodeURIComponent s =
     (case pct_tokens s of
        None \<Rightarrow> Inl URIError
      | Some ts \<Rightarrow> (case utf8_octets ts of None \<Rightarrow> Inl URIError | Some r \<Rightarrow> Inr r))"

text \<open>
  \<open>encodeURIComponent\<close> throws URIError when the string is not well-formed (a lone
  surrogate); otherwise each byte outside the unreserved set is percent-encoded.
\<close>

definition well_formed :: "string \<Rightarrow> bool" where
  "well_formed s = (utf8_octets (map (\<lambda>c. Octet (of_char c)) s) \<noteq> None)"

definition encodeURIComponent :: "string \<Rightarrow> error + string" where
  "encodeURIComponent s = (if well_formed s then Inr (percent_encode s) else Inl URIError)"

section \<open>Objects used as dictionaries\<close>

text \<open>
  \<open>params\<close> and the result of \<open>matchRoute\<close> are plain objects
  (\<open>Record<string, string>\<close>, \<open>{}\<close>): a map of their own string properties, on
  top of \<open>Object.prototype\<close>. Reading \<open>obj[key]\<close> gives the own property, else the
  member of \<open>Object.prototype\<close> of that name, else \<open>undefined\<close>.
\<close>

datatype js_value = Undefined | Str string | Inherited string

definition object_prototype_names :: "string list" where
  "object_prototype_names =
     [''constructor'', ''__defineGetter__'', ''__defineSetter__'', ''hasOwnProperty'',
      ''__lookupGetter__'', ''__lookupSetter__'', ''isPrototypeOf'', ''propertyIsEnumerable'',
      ''toString'', ''valueOf'', ''__proto__'', ''toLocaleString'']"

definition get_property :: "(string \<rightharpoonup> string) \<Rightarrow> string \<Rightarrow> js_value" where
  "get_property obj key =
     (case obj key of
        Some v \<Rightarrow> Str v
      | None \<Rightarrow> if key \<in> set object_prototype_names then Inherited key else Undefined)"

text \<open>
  The text of a value, as \<open>encodeURIComponent\<close> takes it: \<open>__proto__\<close> reads
  \<open>Object.prototype\<close> itself, \<open>constructor\<close> the function \<open>Object\<close>, every
  other inherited name a native function of that name, printed as Node prints them.
\<close>

definition to_string :: "js_value \<Rightarrow> string" where
  "to_string v =
     (case v of
        Undefined \<Rightarrow> ''undefined''
      | Str s \<Rightarrow> s
      | Inherited name \<Rightarrow>
          if name = ''__proto__'' then ''[object Object]''
          else if name = ''constructor'' then ''function Object() { [native code] }''
          else ''function '' @ name @ ''() { [native code] }'')"

text \<open>
  Writing \<open>obj[key] = v\<close> with a string \<open>v\<close> makes an own property, except for
  \<open>__proto__\<close>: that name is the accessor of \<open>Object.prototype\<close>, whose setter
  ignores a string and leaves the object as it was.
\<close>

definition set_property :: "(string \<rightharpoonup> string) \<Rightarrow> string \<Rightarrow> string \<Rightarrow> (string \<rightharpoonup> string)" where
  "set_property obj key v = (if key = ''__proto__'' then obj else obj(key \<mapsto> v))"

section \<open>The path builder (runtime)\<close>

text \<open>
  The regular expression \<open>/\[([^\]]+)\]/\<close> tried at the start of a string: a \<open>[\<close>,
  one or more characters other than \<open>]\<close>, a \<open>]\<close>. The class is greedy and takes
  every character up to the first \<open>]\<close>; a shorter run is never followed by \<open>]\<close>, so
  backtracking finds nothing else. The result is capture group 1 and the text after
  the match.
\<close>

definition match_placeholder :: "string \<Rightarrow> (string \<times> string) option" where
  "match_placeholder s =
     (case s of
        [] \<Rightarrow> None
      | c # cs \<Rightarrow>
          if c = CHR ''['' then
            (let key = takeWhile (\<lambda>x. x \<noteq> CHR '']'') cs;
                 rest = dropWhile (\<lambda>x. x \<noteq> CHR '']'') cs
             in if key = [] \<or> rest = [] then None else Some (key, tl rest))
          else None)"

text \<open>
  The walk of a global (\<open>/g\<close>) regular expression over a string, as
  \<open>String.prototype.replace\<close> and \<open>String.prototype.match\<close> do it: the leftmost
  match, then on from its end; a character where nothing matches is skipped.
\<close>

datatype piece = Lit char | Param string

function scan_placeholders :: "string \<Rightarrow> piece list" where
  "scan_placeholders [] = []"
| "scan_placeholders (c # cs) =
     (case match_placeholder (c # cs) of
        Some (key, rest) \<Rightarrow> Param key # scan_placeholders rest
      | None \<Rightarrow> Lit c # scan_placeholders cs)"
  by pat_completeness auto
termination
proof (relation "measure length")
  fix c :: char and cs :: string and x2 key rest
  assume "match_placeholder (c # cs) = Some x2" and "(key, rest) = x2"
  then have "rest = tl (dropWhile (\<lambda>x. x \<noteq> CHR '']'') cs)"
    by (auto simp: match_placeholder_def Let_def split: if_splits)
  moreover have "length (dropWhile (\<lambda>x. x \<noteq> CHR '']'') cs) \<le> length cs"
    by (rule length_dropWhile_le)
  ultimately show "(rest, c # cs) \<in> measure length"
    by simp
qed simp_all

text \<open>
  \<open>buildPath\<close>: the replacer callback runs on the matches from left to right; at
  each it reads \<open>params[key]\<close>, throws the missing-parameter error when the value is
  \<open>undefined\<close>, and else returns \<open>encodeURIComponent(value)\<close>, which may throw
  URIError. The first throw ends the call. The optional argument is \<open>None\<close> when
  omitted.
\<close>

fun substitute :: "(string \<rightharpoonup> string) \<Rightarrow> string \<Rightarrow> piece list \<Rightarrow> error + string" where
  "substitute params route [] = Inr []"
| "substitute params route (Lit c # ps) =
     (case substitute params route ps of Inl e \<Rightarrow> Inl e | Inr r \<Rightarrow> Inr (c # r))"
| "substitute params route (Param key # ps) =
     (case get_property params key of
        Undefined \<Rightarrow> Inl (MissingParam key route)
      | value \<Rightarrow>
          (case encodeURIComponent (to_string value) of
             Inl e \<Rightarrow> Inl e
           | Inr t \<Rightarrow>
               (case substitute params route ps of
                  Inl e \<Rightarrow> Inl e
                | Inr r \<Rightarrow> Inr (t @ r))))"

definition buildPath :: "string \<Rightarrow> (string \<rightharpoonup> string) option \<Rightarrow> error + string" where
  "buildPath route params =
     (case params of
        None \<Rightarrow> Inr route
      | Some m \<Rightarrow> substitute m route (scan_placeholders route))"

text \<open>
  \<open>extractParamKeys\<close>: \<open>route.match(/\[([^\]]+)\]/g)\<close> is the array of the matched
  texts, or \<open>null\<close> when there is none; \<open>m.slice(1, -1)\<close> drops the first and the
  last character of each. The scanner has its own copy of this function, with the same
  text.
\<close>

fun matched_texts :: "piece list \<Rightarrow> string list" where
  "matched_texts [] = []"
| "matched_texts (Lit c # ps) = matched_texts ps"
| "matched_texts (Param key # ps) = (CHR ''['' # key @ '']'') # matched_texts ps"

definition slice_1_m1 :: "string \<Rightarrow> string" where
  "slice_1_m1 m = butlast (tl m)"

definition extractParamKeys :: "string \<Rightarrow> string list" where
  "extractParamKeys route =
     (let matches = matched_texts (scan_placeholders route)
      in if matches = [] then [] else map slice_1_m1 matches)"

text \<open>\<open>isDynamicRoute\<close>: \<open>/\[[^\]]+\]/.test(route)\<close> tries every start index.\<close>

fun isDynamicRoute :: "string \<Rightarrow> bool" where
  "isDynamicRoute [] = False"
| "isDynamicRoute (c # cs) = (match_placeholder (c # cs) \<noteq> None \<or> isDynamicRoute cs)"

text \<open>The keys of the placeholders of a scan, in order, and the text a piece becomes.\<close>

fun keys_of :: "piece list \<Rightarrow> string list" where
  "keys_of [] = []"
| "keys_of (Lit c # ps) = keys_of ps"
| "keys_of (Param key # ps) = key # keys_of ps"

fun fill :: "(string \<rightharpoonup> string) \<Rightarrow> piece \<Rightarrow> string" where
  "fill m (Lit c) = [c]"
| "fill m (Param key) = (case m key of None \<Rightarrow> [] | Some v \<Rightarrow> percent_encode v)"

section \<open>The route as a regular expression\<close>

text \<open>
  \<open>.replace(/[.*+?^${}()|[\]\\]/g, "\\$&")\<close>: a backslash before each of the
  characters \<open>. * + ? ^ $ { } ( ) | [ ] \\<close>.
\<close>

definition regex_special :: "char \<Rightarrow> bool" where
  "regex_special c = (c \<in> set ''.*+?^${}()|[]'' \<or> c = BSL)"

definition escape_regex :: "string \<Rightarrow> string" where
  "escape_regex s = concat (map (\<lambda>c. if regex_special c then [BSL, c] else [c]) s)"

text \<open>\<open>.replace(/\//g, "\\/")\<close>, the generator's extra step: a backslash before each \<open>/\<close>.\<close>

definition escape_slashes :: "string \<Rightarrow> string" where
  "escape_slashes s = concat (map (\<lambda>c. if c = CHR ''/'' then [BSL, c] else [c]) s)"

text \<open>
  The regular expression \<open>/\\\[([^\]]+)\\\]/\<close> tried at the start of a string: a
  backslash and \<open>[\<close>, one or more characters other than \<open>]\<close>, a backslash and
  \<open>]\<close>. The greedy class runs up to the first \<open>]\<close>, so the engine gives back
  exactly one character, which has to be the backslash, and the group keeps at least
  one character. The result is the text after the match.
\<close>

definition match_escaped_placeholder :: "string \<Rightarrow> string option" where
  "match_escaped_placeholder s =
     (case s of
        c1 # c2 # cs \<Rightarrow>
          if c1 = BSL \<and> c2 = CHR ''['' then
            (let run = takeWhile (\<lambda>x. x \<noteq> CHR '']'') cs;
                 rest = dropWhile (\<lambda>x. x \<noteq> CHR '']'') cs
             in if rest = [] \<or> run = [] \<or> last run \<noteq> BSL \<or> butlast run = [] then None
                else Some (tl rest))
          else None
      | _ \<Rightarrow> None)"

text \<open>\<open>.replace(/\\\[([^\]]+)\\\]/g, "([^/]+)")\<close>: each match becomes the group.\<close>

function replace_escaped_placeholders :: "string \<Rightarrow> string" where
  "replace_escaped_placeholders [] = []"
| "replace_escaped_placeholders (c # cs) =
     (case match_escaped_placeholder (c # cs) of
        Some rest \<Rightarrow> ''([^/]+)'' @ replace_escaped_placeholders rest
      | None \<Rightarrow> c # replace_escaped_placeholders cs)"
  by pat_completeness auto
termination
proof (relation "measure length")
  fix c :: char and cs :: string and rest
  assume "match_escaped_placeholder (c # cs) = Some rest"
  then have "rest = tl (dropWhile (\<lambda>x. x \<noteq> CHR '']'') (tl cs))"
    by (cases cs) (auto simp: match_escaped_placeholder_def Let_def split: if_splits)
  moreover have "length (dropWhile (\<lambda>x. x \<noteq> CHR '']'') (tl cs)) \<le> length (tl cs)"
    by (rule length_dropWhile_le)
  ultimately show "(rest, c # cs) \<in> measure length"
    by simp
qed simp_all

text \<open>
  \<open>new RegExp(source)\<close> for the pattern syntax the program can produce: the
  assertions \<open>^\<close> and \<open>$\<close>, a backslash before a syntax character or before
  \<open>/\<close> (the character itself), the capturing group \<open>([^/]+)\<close>, and any character
  that is not a syntax character (itself). A source outside this fragment is
  \<open>None\<close>; \<open>routeToRegex\<close> never builds one (lemma \<open>routeToRegex_nodes\<close>).
\<close>

datatype re_node = Bol | Eol | Chr char | Seg

function regexp_compile :: "string \<Rightarrow> re_node list option" where
  "regexp_compile [] = Some []"
| "regexp_compile (c # cs) =
     (if take 7 (c # cs) = ''([^/]+)'' then map_option (Cons Seg) (regexp_compile (drop 6 cs))
      else if c = CHR ''^'' then map_option (Cons Bol) (regexp_compile cs)
      else if c = CHR ''$'' then map_option (Cons Eol) (regexp_compile cs)
      else if c = BSL then
        (case cs of
           [] \<Rightarrow> None
         | x # r \<Rightarrow>
             if regex_special x \<or> x = CHR ''/''
             then map_option (Cons (Chr x)) (regexp_compile r)
             else None)
      else if regex_special c then None
      else map_option (Cons (Chr c)) (regexp_compile cs))"
  by pat_completeness auto
termination
  by (relation "measure length") auto

text \<open>
  The backtracking matcher at one position of the input (the flag says whether the
  position is index 0). The group \<open>([^/]+)\<close> is greedy: it first takes every
  character up to the next \<open>/\<close> and gives them back one by one, down to one
  character. The result is the list of the captured texts.
\<close>

fun first_some :: "('a \<Rightarrow> 'b option) \<Rightarrow> 'a list \<Rightarrow> 'b option" where
  "first_some f [] = None"
| "first_some f (x # xs) = (case f x of Some y \<Rightarrow> Some y | None \<Rightarrow> first_some f xs)"

fun re_run :: "re_node list \<Rightarrow> bool \<Rightarrow> string \<Rightarrow> string list option" where
  "re_run [] at0 s = Some []"
| "re_run (Bol # ns) at0 s = (if at0 then re_run ns at0 s else None)"
| "re_run (Eol # ns) at0 s = (if s = [] then re_run ns at0 s else None)"
| "re_run (Chr c # ns) at0 s =
     (case s of [] \<Rightarrow> None | x # xs \<Rightarrow> if x = c then re_run ns False xs else None)"
| "re_run (Seg # ns) at0 s =
     first_some (\<lambda>k. map_option (Cons (take k s)) (re_run ns False (drop k s)))
       (rev [1..<Suc (length (takeWhile (\<lambda>x. x \<noteq> CHR ''/'') s))])"

text \<open>
  \<open>pathname.match(regex)\<close> for a regular expression without flags: the first start
  index, from 0 on, at which the expression matches; \<open>None\<close> is \<open>null\<close>.
\<close>

definition regexp_exec :: "re_node list \<Rightarrow> string \<Rightarrow> string list option" where
  "regexp_exec re s = first_some (\<lambda>i. re_run re (i = 0) (drop i s)) [0..<Suc (length s)]"

definition routeToRegex :: "string \<Rightarrow> re_node list option" where
  "routeToRegex route =
     (let escaped = replace_escaped_placeholders (escape_regex route)
      in regexp_compile (''^'' @ escaped @ ''$''))"

text \<open>
  \<open>matchRoute\<close>: \<open>keys.forEach((key, index) => result[key] =
  decodeURIComponent(match[index + 1]))\<close>, on a \<open>result\<close> that starts as \<open>{}\<close>.
  An index beyond the match array reads \<open>undefined\<close>, which
  \<open>decodeURIComponent\<close> turns into the text \<open>undefined\<close>.
\<close>

fun assign_params ::
  "string list \<Rightarrow> string list \<Rightarrow> nat \<Rightarrow> (string \<rightharpoonup> string) \<Rightarrow> error + (string \<rightharpoonup> string)" where
  "assign_params [] caps i result = Inr result"
| "assign_params (key # keys) caps i result =
     (case decodeURIComponent (if i < length caps then caps ! i else ''undefined'') of
        Inl e \<Rightarrow> Inl e
      | Inr v \<Rightarrow> assign_params keys caps (Suc i) (set_property result key v))"

definition matchRoute :: "string \<Rightarrow> string \<Rightarrow> error + (string \<rightharpoonup> string) option" where
  "matchRoute pathname pattern =
     (case routeToRegex pattern of
        None \<Rightarrow> Inl SyntaxError
      | Some regex \<Rightarrow>
          (case regexp_exec regex pathname of
             None \<Rightarrow> Inr None
           | Some caps \<Rightarrow>
               (case assign_params (extractParamKeys pattern) caps 0 Map.empty of
                  Inl e \<Rightarrow> Inl e
                | Inr result \<Rightarrow> Inr (Some result))))"

section \<open>The generator's regular expression text\<close>

definition routePathToRegexString :: "string \<Rightarrow> string" where
  "routePathToRegexString routePath =
     ''^'' @ replace_escaped_placeholders (escape_slashes (escape_regex routePath)) @ ''$''"

text \<open>The node a scanned piece of the route stands for.\<close>

fun node_of :: "piece \<Rightarrow> re_node" where
  "node_of (Lit c) = Chr c"
| "node_of (Param key) = Seg"

text \<open>Both escaping steps at once, for the proofs: a backslash before each character of a class.\<close>

definition escape_with :: "(char \<Rightarrow> bool) \<Rightarrow> string \<Rightarrow> string" where
  "escape_with P s = concat (map (\<lambda>c. if P c then [BSL, c] else [c]) s)"

text \<open>The classes the two escaping steps can amount to.\<close>

definition covers :: "(char \<Rightarrow> bool) \<Rightarrow> bool" where
  "covers P = (\<forall>c. (regex_special c \<longrightarrow> P c) \<and> (P c \<longrightarrow> regex_special c \<or> c = CHR ''/''))"

section \<open>Notions the properties are stated with\<close>

text \<open>The text of the route a piece stands for.\<close>

fun piece_text :: "piece \<Rightarrow> string" where
  "piece_text (Lit c) = [c]"
| "piece_text (Param key) = CHR ''['' # key @ '']''"

text \<open>
  Every placeholder is followed at once by \<open>/\<close> or ends the route, as it is when
  each placeholder is a whole segment.
\<close>

fun delimited :: "piece list \<Rightarrow> bool" where
  "delimited [] = True"
| "delimited (Lit c # ps) = delimited ps"
| "delimited (Param key # ps) = ((ps = [] \<or> hd ps = Lit CHR ''/'') \<and> delimited ps)"

text \<open>
  A route pattern in the sense of the specification's data model: each segment has no
  \<open>/\<close> and is either free of brackets or one bracketed non-empty name.
\<close>

definition bracket_free :: "string \<Rightarrow> bool" where
  "bracket_free s = (CHR ''['' \<notin> set s \<and> CHR '']'' \<notin> set s)"

definition placeholder_segment :: "string \<Rightarrow> bool" where
  "placeholder_segment s =
     (2 < length s \<and> hd s = CHR ''['' \<and> last s = CHR '']'' \<and> bracket_free (butlast (tl s)))"

definition pattern_segment :: "string \<Rightarrow> bool" where
  "pattern_segment s = (CHR ''/'' \<notin> set s \<and> (bracket_free s \<or> placeholder_segment s))"

text \<open>The segments of a path or route, as \<open>s.split("/")\<close> gives them.\<close>

fun segments :: "string \<Rightarrow> string list" where
  "segments [] = [[]]"
| "segments (c # cs) =
     (if c = CHR ''/'' then [] # segments cs
      else (case segments cs of [] \<Rightarrow> [[c]] | s # ss \<Rightarrow> (c # s) # ss))"

text \<open>What \<open>percent_encode\<close> makes of one character, read back as a token.\<close>

definition uri_tok :: "char \<Rightarrow> uri_token" where
  "uri_tok c = (if uri_unreserved c then Raw c else Octet (of_char c))"

section \<open>The scanner\<close>

text \<open>
  The directory tree under the root: a file with its content, or a directory with its
  entries in the order \<open>readdirSync\<close> returns them. Every entry is readable, and a
  symbolic link counts as what \<open>isDirectory\<close> says of it.
\<close>

datatype fsnode = File string | Dir "(string \<times> fsnode) list"

record ScannedRoute =
  filePath :: string
  routePath :: string
  params :: "string list"
  isStatic :: bool

text \<open>
  \<open>usesRouteCreator\<close>: \<open>/\b(createRoute|createDynamicRoute)\s*\(/.test(content)\<close>.
  \<open>\w\<close> is \<open>[A-Za-z0-9_]\<close>. \<open>\s\<close> is the white space and the line terminators
  of ECMA-262, here by the bytes of their UTF-8 encodings (TAB, LF, VT, FF, CR, SP,
  U+00A0, U+1680, U+2000 to U+200A, U+2028, U+2029, U+202F, U+205F, U+3000, U+FEFF).
\<close>

definition word_char :: "char \<Rightarrow> bool" where
  "word_char c =
     (let n = (of_char c :: nat)
      in (65 \<le> n \<and> n \<le> 90) \<or> (97 \<le> n \<and> n \<le> 122) \<or> (48 \<le> n \<and> n \<le> 57) \<or> c = CHR ''_'')"

definition white_space :: "nat list list" where
  "white_space =
     [[9], [10], [11], [12], [13], [32], [0xC2, 0xA0], [0xE1, 0x9A, 0x80],
      [0xE2, 0x80, 0x80], [0xE2, 0x80, 0x81], [0xE2, 0x80, 0x82], [0xE2, 0x80, 0x83],
      [0xE2, 0x80, 0x84], [0xE2, 0x80, 0x85], [0xE2, 0x80, 0x86], [0xE2, 0x80, 0x87],
      [0xE2, 0x80, 0x88], [0xE2, 0x80, 0x89], [0xE2, 0x80, 0x8A], [0xE2, 0x80, 0xA8],
      [0xE2, 0x80, 0xA9], [0xE2, 0x80, 0xAF], [0xE2, 0x81, 0x9F], [0xE3, 0x80, 0x80],
      [0xEF, 0xBB, 0xBF]]"

text \<open>The number of bytes of the white-space character a string starts with, or 0.\<close>

definition space_len :: "string \<Rightarrow> nat" where
  "space_len s =
     (case find (\<lambda>w. map of_char (take (length w) s) = w) white_space of
        None \<Rightarrow> 0
      | Some w \<Rightarrow> length w)"

text \<open>\<open>\s*\<close> is greedy, and what follows it, \<open>\(\<close>, is no white space: nothing is given back.\<close>

fun skip_space :: "string \<Rightarrow> string" where
  "skip_space [] = []"
| "skip_space (c # cs) =
     (if space_len (c # cs) = 0 then c # cs
      else skip_space (drop (space_len (c # cs) - 1) cs))"

definition starts_with :: "string \<Rightarrow> string \<Rightarrow> bool" where
  "starts_with s p = (take (length p) s = p)"

definition call_at :: "string \<Rightarrow> bool" where
  "call_at s =
     ((starts_with s ''createRoute''
         \<and> starts_with (skip_space (drop (length ''createRoute'') s)) ''('')
      \<or> (starts_with s ''createDynamicRoute''
         \<and> starts_with (skip_space (drop (length ''createDynamicRoute'') s)) ''(''))"

text \<open>
  Every start index in turn; \<open>\b\<close> before the letter \<open>c\<close> holds when the character
  before it is no word character (or there is none).
\<close>

fun find_call :: "bool \<Rightarrow> string \<Rightarrow> bool" where
  "find_call after_word [] = False"
| "find_call after_word (c # cs) =
     ((\<not> after_word \<and> call_at (c # cs)) \<or> find_call (word_char c) cs)"

definition usesRouteCreator :: "string \<Rightarrow> bool" where
  "usesRouteCreator content = find_call False content"

text \<open>\<open>segments.join("/")\<close>, \<open>entry.name.startsWith("_")\<close>, \<open>excludePath && excludePath(p)\<close>.\<close>

fun join_with :: "string \<Rightarrow> string list \<Rightarrow> string" where
  "join_with sep [] = []"
| "join_with sep [x] = x"
| "join_with sep (x # y # ys) = x @ sep @ join_with sep (y # ys)"

definition starts_with_underscore :: "string \<Rightarrow> bool" where
  "starts_with_underscore name = starts_with name ''_''"

definition excluded :: "(string \<Rightarrow> bool) option \<Rightarrow> string \<Rightarrow> bool" where
  "excluded excludePath p = (case excludePath of None \<Rightarrow> False | Some f \<Rightarrow> f p)"

text \<open>
  The loop of \<open>walk\<close> over the entries of the directory \<open>dir\<close>, reached from the
  root through \<open>segs\<close>. \<open>path.join\<close> of Node is the parameter \<open>pjoin\<close>. The routes
  are pushed in the order of the walk: those of a subdirectory before those of the
  entries after it.
\<close>

function walk ::
  "(string \<Rightarrow> string \<Rightarrow> string) \<Rightarrow> (string \<Rightarrow> bool) option \<Rightarrow> string \<Rightarrow> string list \<Rightarrow>
     (string \<times> fsnode) list \<Rightarrow> ScannedRoute list" where
  "walk pjoin excludePath dir segs [] = []"
| "walk pjoin excludePath dir segs ((name, Dir sub) # es) =
     (if starts_with_underscore name then walk pjoin excludePath dir segs es
      else if excluded excludePath (''/'' @ join_with ''/'' (segs @ [name]))
        then walk pjoin excludePath dir segs es
      else walk pjoin excludePath (pjoin dir name) (segs @ [name]) sub
           @ walk pjoin excludePath dir segs es)"
| "walk pjoin excludePath dir segs ((name, File content) # es) =
     (if name = ''page.tsx'' \<or> name = ''page.ts'' then
        (if \<not> usesRouteCreator content then walk pjoin excludePath dir segs es
         else
           (let routePath = ''/'' @ join_with ''/'' segs;
                params = extractParamKeys routePath
            in \<lparr>filePath = pjoin dir name, routePath = routePath, params = params,
                 isStatic = (params = [])\<rparr>
               # walk pjoin excludePath dir segs es))
      else walk pjoin excludePath dir segs es)"
  by pat_completeness auto
termination
  by (relation "measure (\<lambda>(pjoin, excludePath, dir, segs, es). size_list (size_prod (\<lambda>x. 0) size) es)")
     auto

text \<open>
  \<open>scanRoutes\<close>: \<open>root\<close> is what the file system has at \<open>appDir\<close>. Nothing there:
  \<open>existsSync\<close> is false and the walk returns at once. A file there: \<open>readdirSync\<close>
  throws.
\<close>

definition scanRoutes ::
  "(string \<Rightarrow> string \<Rightarrow> string) \<Rightarrow> string \<Rightarrow> (string \<Rightarrow> bool) option \<Rightarrow> fsnode option \<Rightarrow>
     error + ScannedRoute list" where
  "scanRoutes pjoin appDir excludePath root =
     (case root of
        None \<Rightarrow> Inr []
      | Some (File content) \<Rightarrow> Inl (ENOTDIR appDir)
      | Some (Dir es) \<Rightarrow> Inr (walk pjoin excludePath appDir [] es))"

text \<open>
  Every file of a tree, in the order of a depth-first walk: the names of the
  directories from the root down to it, its name and its content.
\<close>

function all_files :: "string list \<Rightarrow> (string \<times> fsnode) list \<Rightarrow> (string list \<times> string \<times> string) list" where
  "all_files path [] = []"
| "all_files path ((name, Dir sub) # es) = all_files (path @ [name]) sub @ all_files path es"
| "all_files path ((name, File content) # es) = (path, name, content) # all_files path es"
  by pat_completeness auto
termination
  by (relation "measure (\<lambda>(path, es). size_list (size_prod (\<lambda>x. 0) size) es)") auto

text \<open>
  The walk goes down a directory path when, from position \<open>n\<close> on, no name starts
  with \<open>_\<close> and \<open>excludePath\<close> rejects no cumulative path.
\<close>

definition visited_from :: "(string \<Rightarrow> bool) option \<Rightarrow> nat \<Rightarrow> string list \<Rightarrow> bool" where
  "visited_from excludePath n path =
     list_all
       (\<lambda>i. \<not> starts_with_underscore (path ! i)
            \<and> \<not> excluded excludePath (''/'' @ join_with ''/'' (take (Suc i) path)))
       [n..<length path]"

definition route_file :: "string \<Rightarrow> string \<Rightarrow> bool" where
  "route_file name content =
     ((name = ''page.tsx'' \<or> name = ''page.ts'') \<and> usesRouteCreator content)"

text \<open>The record of the file \<open>name\<close> in the directory reached through \<open>path\<close>.\<close>

definition route_of ::
  "(string \<Rightarrow> string \<Rightarrow> string) \<Rightarrow> string \<Rightarrow> nat \<Rightarrow> string list \<times> string \<times> string \<Rightarrow> ScannedRoute" where
  "route_of pjoin dir n f =
     (case f of (path, name, content) \<Rightarrow>
        \<lparr>filePath = foldl pjoin dir (drop n path @ [name]),
         routePath = ''/'' @ join_with ''/'' path,
         params = extractParamKeys (''/'' @ join_with ''/'' path),
         isStatic = (extractParamKeys (''/'' @ join_with ''/'' path) = [])\<rparr>)"

text \<open>
  The content test in words: somewhere in the text stands \<open>createRoute\<close> or
  \<open>createDynamicRoute\<close>, not right after a word character, followed by any number
  of white-space characters and then \<open>(\<close>. A run of white space is a sequence of
  characters of the table above.
\<close>

definition space_run :: "string \<Rightarrow> bool" where
  "space_run ws = (\<exists>us. set us \<subseteq> set white_space \<and> map of_char ws = concat us)"

definition has_route_call :: "string \<Rightarrow> bool" where
  "has_route_call content =
     (\<exists>pre name ws post.
        content = pre @ name @ ws @ ''('' @ post
        \<and> (name = ''createRoute'' \<or> name = ''createDynamicRoute'')
        \<and> space_run ws
        \<and> (pre = [] \<or> \<not> word_char (last pre)))"

text \<open>The number of bytes of a white-space character, by its first byte.\<close>

definition unit_len :: "nat \<Rightarrow> nat" where
  "unit_len b = (if b = 0xC2 then 2 else if b \<in> {0xE1, 0xE2, 0xE3, 0xEF} then 3 else 1)"

section \<open>Lemmas about the path builder\<close>

lemma match_placeholder_iff:
  "match_placeholder s = Some (k, r) \<longleftrightarrow>
     s = CHR ''['' # k @ CHR '']'' # r \<and> k \<noteq> [] \<and> CHR '']'' \<notin> set k"
proof
  assume h: "match_placeholder s = Some (k, r)"
  then obtain cs where s: "s = CHR ''['' # cs"
    by (cases s) (auto simp: match_placeholder_def split: if_splits)
  let ?P = "\<lambda>x. x \<noteq> CHR '']''"
  from h s have k: "k = takeWhile ?P cs" and ne: "k \<noteq> []"
    and d: "dropWhile ?P cs \<noteq> []" and r: "r = tl (dropWhile ?P cs)"
    by (auto simp: match_placeholder_def Let_def split: if_splits)
  from d have "hd (dropWhile ?P cs) = CHR '']''"
    using hd_dropWhile[of ?P cs] by auto
  with d r have "dropWhile ?P cs = CHR '']'' # r"
    by (cases "dropWhile ?P cs") auto
  then have "cs = k @ CHR '']'' # r"
    using takeWhile_dropWhile_id[of ?P cs] k by simp
  moreover have "CHR '']'' \<notin> set k"
    using k by (auto dest: set_takeWhileD)
  ultimately show "s = CHR ''['' # k @ CHR '']'' # r \<and> k \<noteq> [] \<and> CHR '']'' \<notin> set k"
    using s ne by simp
next
  assume "s = CHR ''['' # k @ CHR '']'' # r \<and> k \<noteq> [] \<and> CHR '']'' \<notin> set k"
  then have s: "s = CHR ''['' # k @ CHR '']'' # r" and ne: "k \<noteq> []"
    and nk: "\<forall>x\<in>set k. x \<noteq> CHR '']''"
    by auto
  have t: "takeWhile (\<lambda>x. x \<noteq> CHR '']'') (k @ CHR '']'' # r) = k"
    using nk by (simp add: takeWhile_append2)
  have d: "dropWhile (\<lambda>x. x \<noteq> CHR '']'') (k @ CHR '']'' # r) = CHR '']'' # r"
    using nk by (simp add: dropWhile_append2)
  show "match_placeholder s = Some (k, r)"
    using ne by (simp add: s match_placeholder_def Let_def t d)
qed

lemma slice_bracketed: "slice_1_m1 (CHR ''['' # k @ '']'') = k"
  by (simp add: slice_1_m1_def butlast_append)

lemma slice_matched_texts: "map slice_1_m1 (matched_texts ps) = keys_of ps"
  by (induction ps rule: matched_texts.induct) (simp_all add: slice_bracketed)

lemma matched_texts_Nil: "matched_texts ps = [] \<longleftrightarrow> keys_of ps = []"
  by (induction ps rule: matched_texts.induct) simp_all

lemma extractParamKeys_keys_of: "extractParamKeys route = keys_of (scan_placeholders route)"
  by (simp add: extractParamKeys_def Let_def slice_matched_texts matched_texts_Nil)

lemma find_None_iff2: "(find P xs = None) = (\<forall>x\<in>set xs. \<not> P x)"
  by (induction xs) auto

section \<open>Lemmas about the regular expressions\<close>

subsection \<open>Escaping\<close>

lemma escape_with_Nil [simp]: "escape_with P [] = []"
  by (simp add: escape_with_def)

lemma escape_with_Cons:
  "escape_with P (c # cs) = (if P c then [BSL, c] else [c]) @ escape_with P cs"
  by (simp add: escape_with_def)

lemma escape_with_append: "escape_with P (a @ b) = escape_with P a @ escape_with P b"
  by (simp add: escape_with_def)

lemma set_escape_with: "set (escape_with P s) \<subseteq> insert BSL (set s)"
  by (induction s) (auto simp: escape_with_Cons)

lemma escape_with_eq_Nil [simp]: "escape_with P s = [] \<longleftrightarrow> s = []"
  by (cases s) (auto simp: escape_with_Cons)

lemma escape_regex_with: "escape_regex s = escape_with regex_special s"
  by (simp add: escape_regex_def escape_with_def)

lemma escape_slashes_with:
  "escape_slashes (escape_regex s) = escape_with (\<lambda>c. regex_special c \<or> c = CHR ''/'') s"
  by (induction s) (auto simp: escape_regex_def escape_slashes_def escape_with_def regex_special_def)

lemma rbr_notin_escape: "CHR '']'' \<notin> set k \<Longrightarrow> CHR '']'' \<notin> set (escape_with P k)"
  using set_escape_with[of P k] by auto

lemma hd_escape_with: "P CHR ''['' \<Longrightarrow> escape_with P cs = x # r \<Longrightarrow> x \<noteq> CHR ''[''"
  by (cases cs) (auto simp: escape_with_Cons split: if_splits)

subsection \<open>The escaped placeholder\<close>

lemma mep_not_bsl: "c \<noteq> BSL \<Longrightarrow> match_escaped_placeholder (c # s) = None"
  by (cases s) (auto simp: match_escaped_placeholder_def)

lemma mep_not_lbr: "c2 \<noteq> CHR ''['' \<Longrightarrow> match_escaped_placeholder (c1 # c2 # s) = None"
  by (auto simp: match_escaped_placeholder_def)

lemma mep_single: "match_escaped_placeholder [c] = None"
  by (auto simp: match_escaped_placeholder_def)

lemma mep_match:
  assumes "r \<noteq> []" and "CHR '']'' \<notin> set r"
  shows "match_escaped_placeholder (BSL # CHR ''['' # r @ BSL # CHR '']'' # rest) = Some rest"
proof -
  let ?P = "\<lambda>x. x \<noteq> CHR '']''"
  have p: "\<forall>x\<in>set (r @ [BSL]). ?P x"
    using assms by auto
  have "takeWhile ?P ((r @ [BSL]) @ CHR '']'' # rest) = (r @ [BSL]) @ takeWhile ?P (CHR '']'' # rest)"
    by (rule takeWhile_append2) (use p in auto)
  then have t: "takeWhile ?P (r @ BSL # CHR '']'' # rest) = r @ [BSL]"
    by simp
  have "dropWhile ?P ((r @ [BSL]) @ CHR '']'' # rest) = dropWhile ?P (CHR '']'' # rest)"
    by (rule dropWhile_append2) (use p in auto)
  then have d: "dropWhile ?P (r @ BSL # CHR '']'' # rest) = CHR '']'' # rest"
    by simp
  show ?thesis
    using assms(1) by (simp add: match_escaped_placeholder_def Let_def t d)
qed

lemma mep_no_placeholder:
  assumes "match_placeholder (CHR ''['' # cs) = None" and "P CHR '']''"
  shows "match_escaped_placeholder (BSL # CHR ''['' # escape_with P cs) = None"
proof -
  let ?Q = "\<lambda>x. x \<noteq> CHR '']''"
  from assms(1) consider "dropWhile ?Q cs = []" | "takeWhile ?Q cs = []" "dropWhile ?Q cs \<noteq> []"
    by (auto simp: match_placeholder_def Let_def split: if_splits)
  then show ?thesis
  proof cases
    case 1
    then have "CHR '']'' \<notin> set cs"
      by (auto simp: dropWhile_eq_Nil_conv)
    then have "CHR '']'' \<notin> set (escape_with P cs)"
      by (rule rbr_notin_escape)
    then have "dropWhile ?Q (escape_with P cs) = []"
      by (auto simp: dropWhile_eq_Nil_conv)
    then show ?thesis
      by (simp add: match_escaped_placeholder_def Let_def)
  next
    case 2
    then obtain cs' where "cs = CHR '']'' # cs'"
      by (cases cs) (auto split: if_splits)
    then show ?thesis
      using assms(2) by (simp add: match_escaped_placeholder_def Let_def escape_with_Cons)
  qed
qed

text \<open>The model of the escaped-placeholder expression finds exactly the texts the expression describes.\<close>

lemma match_escaped_placeholder_iff:
  "match_escaped_placeholder s = Some r \<longleftrightarrow>
     (\<exists>run. s = BSL # CHR ''['' # run @ BSL # CHR '']'' # r \<and> run \<noteq> [] \<and> CHR '']'' \<notin> set run)"
proof
  assume h: "match_escaped_placeholder s = Some r"
  let ?P = "\<lambda>x. x \<noteq> CHR '']''"
  from h obtain cs where s: "s = BSL # CHR ''['' # cs"
    by (cases s rule: list.exhaust[case_names Nil Cons])
       (auto simp: match_escaped_placeholder_def split: list.splits if_splits)
  from h s have d: "dropWhile ?P cs \<noteq> []" and t: "takeWhile ?P cs \<noteq> []"
    and l: "last (takeWhile ?P cs) = BSL" and b: "butlast (takeWhile ?P cs) \<noteq> []"
    and r: "r = tl (dropWhile ?P cs)"
    by (auto simp: match_escaped_placeholder_def Let_def split: if_splits)
  from d have "hd (dropWhile ?P cs) = CHR '']''"
    using hd_dropWhile[of ?P cs] by auto
  with d r have dr: "dropWhile ?P cs = CHR '']'' # r"
    by (cases "dropWhile ?P cs") auto
  from t l have tk: "takeWhile ?P cs = butlast (takeWhile ?P cs) @ [BSL]"
    using append_butlast_last_id[of "takeWhile ?P cs"] by simp
  have "cs = takeWhile ?P cs @ dropWhile ?P cs" by simp
  then have "cs = butlast (takeWhile ?P cs) @ BSL # CHR '']'' # r"
    using tk dr by (metis append.assoc append_Cons append_Nil)
  moreover have "CHR '']'' \<notin> set (butlast (takeWhile ?P cs))"
    by (auto dest: in_set_butlastD set_takeWhileD)
  ultimately show "\<exists>run. s = BSL # CHR ''['' # run @ BSL # CHR '']'' # r \<and> run \<noteq> []
      \<and> CHR '']'' \<notin> set run"
    using s b by blast
next
  assume "\<exists>run. s = BSL # CHR ''['' # run @ BSL # CHR '']'' # r \<and> run \<noteq> [] \<and> CHR '']'' \<notin> set run"
  then show "match_escaped_placeholder s = Some r"
    using mep_match by blast
qed

subsection \<open>Replacing the escaped placeholders\<close>

lemma special_chars: "regex_special BSL" "regex_special CHR ''[''" "regex_special CHR '']''"
  by (simp_all add: regex_special_def)

lemma coversD1: "covers P \<Longrightarrow> regex_special c \<Longrightarrow> P c"
  by (simp add: covers_def)

lemma coversD2: "covers P \<Longrightarrow> P c \<Longrightarrow> regex_special c \<or> c = CHR ''/''"
  by (simp add: covers_def)

lemma covers_special: "covers regex_special"
  by (simp add: covers_def)

lemma covers_slash: "covers (\<lambda>c. regex_special c \<or> c = CHR ''/'')"
  by (simp add: covers_def)

lemma replace_unmatched:
  assumes "covers P" and "match_placeholder (c # cs) = None"
  shows "replace_escaped_placeholders (escape_with P (c # cs)) =
           (if P c then [BSL, c] else [c]) @ replace_escaped_placeholders (escape_with P cs)"
proof (cases "P c")
  case False
  then have "c \<noteq> BSL"
    using coversD1[OF assms(1) special_chars(1)] by auto
  then show ?thesis
    using False by (simp add: escape_with_Cons mep_not_bsl)
next
  case True
  have pl: "P CHR ''[''" and pr: "P CHR '']''"
    using assms(1) special_chars by (auto intro: coversD1)
  have first: "match_escaped_placeholder (BSL # c # escape_with P cs) = None"
  proof (cases "c = CHR ''[''")
    case True
    then show ?thesis using mep_no_placeholder[of cs P] pr assms(2) by simp
  next
    case False
    then show ?thesis by (rule mep_not_lbr)
  qed
  have second: "match_escaped_placeholder (c # escape_with P cs) = None"
  proof (cases "c = BSL")
    case False
    then show ?thesis by (rule mep_not_bsl)
  next
    case c: True
    show ?thesis
    proof (cases "escape_with P cs")
      case Nil
      then show ?thesis by (simp add: mep_single)
    next
      case (Cons x r)
      then have "x \<noteq> CHR ''[''" using hd_escape_with[of P cs x r] pl by blast
      then show ?thesis using Cons by (simp add: mep_not_lbr)
    qed
  qed
  show ?thesis
    using True first second by (simp add: escape_with_Cons)
qed

lemma replace_matched:
  assumes "covers P" and "match_placeholder (c # cs) = Some (k, rest)"
  shows "replace_escaped_placeholders (escape_with P (c # cs)) =
           ''([^/]+)'' @ replace_escaped_placeholders (escape_with P rest)"
proof -
  from assms(2) have s: "c # cs = CHR ''['' # k @ CHR '']'' # rest" and ne: "k \<noteq> []"
    and nk: "CHR '']'' \<notin> set k"
    by (simp_all add: match_placeholder_iff)
  have pl: "P CHR ''[''" and pr: "P CHR '']''"
    using assms(1) special_chars by (auto intro: coversD1)
  have e: "escape_with P (c # cs) =
      BSL # CHR ''['' # escape_with P k @ BSL # CHR '']'' # escape_with P rest"
    using pl pr by (simp add: s escape_with_Cons escape_with_append)
  have "match_escaped_placeholder (escape_with P (c # cs)) = Some (escape_with P rest)"
    unfolding e using ne nk by (intro mep_match) (simp_all add: rbr_notin_escape)
  then show ?thesis
    unfolding e by simp
qed

subsection \<open>Compiling\<close>

lemma compile_group:
  "regexp_compile (''([^/]+)'' @ s) = map_option (Cons Seg) (regexp_compile s)"
  by simp

lemma compile_escaped:
  "regex_special c \<or> c = CHR ''/'' \<Longrightarrow>
     regexp_compile (BSL # c # s) = map_option (Cons (Chr c)) (regexp_compile s)"
  by simp

lemma compile_plain:
  "\<not> regex_special c \<Longrightarrow> regexp_compile (c # s) = map_option (Cons (Chr c)) (regexp_compile s)"
  by (auto simp: regex_special_def)

lemma compile_replaced:
  assumes "covers P"
  shows "regexp_compile (replace_escaped_placeholders (escape_with P p) @ t) =
           map_option ((@) (map node_of (scan_placeholders p))) (regexp_compile t)"
proof (induction p rule: scan_placeholders.induct)
  case 1
  show ?case by (simp add: option.map_ident)
next
  case (2 c cs)
  show ?case
  proof (cases "match_placeholder (c # cs)")
    case None
    have r: "replace_escaped_placeholders (escape_with P (c # cs)) =
        (if P c then [BSL, c] else [c]) @ replace_escaped_placeholders (escape_with P cs)"
      using assms None by (rule replace_unmatched)
    have ih: "regexp_compile (replace_escaped_placeholders (escape_with P cs) @ t) =
        map_option ((@) (map node_of (scan_placeholders cs))) (regexp_compile t)"
      using "2.IH"(1)[OF None] .
    let ?X = "replace_escaped_placeholders (escape_with P cs)"
    have pieces: "map node_of (scan_placeholders (c # cs)) = Chr c # map node_of (scan_placeholders cs)"
      using None by simp
    have "regexp_compile ((if P c then [BSL, c] else [c]) @ ?X @ t) =
        map_option (Cons (Chr c)) (regexp_compile (?X @ t))"
    proof (cases "P c")
      case True
      then have "regex_special c \<or> c = CHR ''/''"
        using assms by (rule coversD2[rotated])
      then have "regexp_compile (BSL # c # ?X @ t) = map_option (Cons (Chr c)) (regexp_compile (?X @ t))"
        by (rule compile_escaped)
      with True show ?thesis by simp
    next
      case False
      then have "\<not> regex_special c"
        using coversD1[OF assms] by auto
      then have "regexp_compile (c # ?X @ t) = map_option (Cons (Chr c)) (regexp_compile (?X @ t))"
        by (rule compile_plain)
      with False show ?thesis by simp
    qed
    then have "regexp_compile (replace_escaped_placeholders (escape_with P (c # cs)) @ t) =
        map_option (Cons (Chr c)) (map_option ((@) (map node_of (scan_placeholders cs))) (regexp_compile t))"
      by (simp only: r ih append_assoc)
    then show ?thesis
      by (simp only: pieces option.map_comp comp_def append_Cons)
  next
    case (Some a)
    obtain k rest where a: "a = (k, rest)" by (cases a)
    have r: "replace_escaped_placeholders (escape_with P (c # cs)) =
        ''([^/]+)'' @ replace_escaped_placeholders (escape_with P rest)"
      using assms Some a by (intro replace_matched[where k = k]) simp_all
    have ih: "regexp_compile (replace_escaped_placeholders (escape_with P rest) @ t) =
        map_option ((@) (map node_of (scan_placeholders rest))) (regexp_compile t)"
      using "2.IH"(2)[OF Some a[symmetric]] .
    have "regexp_compile (replace_escaped_placeholders (escape_with P (c # cs)) @ t) =
        map_option (Cons Seg) (regexp_compile (replace_escaped_placeholders (escape_with P rest) @ t))"
      unfolding r by (simp only: append_assoc compile_group)
    then show ?thesis
      using Some a ih by (simp add: option.map_comp comp_def)
  qed
qed

lemma compile_anchored:
  assumes "covers P"
  shows "regexp_compile (''^'' @ replace_escaped_placeholders (escape_with P p) @ ''$'') =
           Some (Bol # map node_of (scan_placeholders p) @ [Eol])"
proof -
  have "regexp_compile (replace_escaped_placeholders (escape_with P p) @ ''$'') =
      Some (map node_of (scan_placeholders p) @ [Eol])"
    by (simp add: compile_replaced[OF assms])
  then show ?thesis by simp
qed

lemma routeToRegex_nodes:
  "routeToRegex route = Some (Bol # map node_of (scan_placeholders route) @ [Eol])"
  using compile_anchored[OF covers_special, of route]
  by (simp add: routeToRegex_def escape_regex_with)

lemma routePathToRegexString_nodes:
  "regexp_compile (routePathToRegexString p) =
     Some (Bol # map node_of (scan_placeholders p) @ [Eol])"
  using compile_anchored[OF covers_slash, of p]
  by (simp add: routePathToRegexString_def escape_slashes_with)

subsection \<open>Where the placeholders are\<close>

lemma keys_of_occurs:
  "k \<in> set (keys_of (scan_placeholders p)) \<Longrightarrow>
     k \<noteq> [] \<and> CHR '']'' \<notin> set k \<and> (\<exists>pre post. p = pre @ CHR ''['' # k @ CHR '']'' # post)"
proof (induction p rule: scan_placeholders.induct)
  case 1
  then show ?case by simp
next
  case (2 c cs)
  show ?case
  proof (cases "match_placeholder (c # cs)")
    case None
    with "2.prems" have "k \<in> set (keys_of (scan_placeholders cs))" by simp
    from "2.IH"(1)[OF None this] obtain pre post where
      "k \<noteq> []" "CHR '']'' \<notin> set k" "cs = pre @ CHR ''['' # k @ CHR '']'' # post"
      by blast
    then have "c # cs = (c # pre) @ CHR ''['' # k @ CHR '']'' # post" by simp
    with \<open>k \<noteq> []\<close> \<open>CHR '']'' \<notin> set k\<close> show ?thesis by blast
  next
    case (Some a)
    obtain k' rest where a: "a = (k', rest)" by (cases a)
    from Some a have m: "c # cs = CHR ''['' # k' @ CHR '']'' # rest" "k' \<noteq> []" "CHR '']'' \<notin> set k'"
      by (simp_all add: match_placeholder_iff)
    from "2.prems" Some a have "k = k' \<or> k \<in> set (keys_of (scan_placeholders rest))" by simp
    then show ?thesis
    proof
      assume "k = k'"
      with m have "c # cs = [] @ CHR ''['' # k @ CHR '']'' # rest" by simp
      with m \<open>k = k'\<close> show ?thesis by blast
    next
      assume "k \<in> set (keys_of (scan_placeholders rest))"
      from "2.IH"(2)[OF Some a[symmetric] this] obtain pre post where
        "k \<noteq> []" "CHR '']'' \<notin> set k" "rest = pre @ CHR ''['' # k @ CHR '']'' # post"
        by blast
      with m have "c # cs = (CHR ''['' # k' @ CHR '']'' # pre) @ CHR ''['' # k @ CHR '']'' # post"
        by simp
      with \<open>k \<noteq> []\<close> \<open>CHR '']'' \<notin> set k\<close> show ?thesis by blast
    qed
  qed
qed

lemma occurs_keys_of:
  "p = pre @ CHR ''['' # k @ CHR '']'' # post \<Longrightarrow> k \<noteq> [] \<Longrightarrow> CHR '']'' \<notin> set k \<Longrightarrow>
     keys_of (scan_placeholders p) \<noteq> []"
proof (induction p arbitrary: pre rule: scan_placeholders.induct)
  case 1
  then show ?case by simp
next
  case (2 c cs)
  show ?case
  proof (cases "match_placeholder (c # cs)")
    case (Some a)
    then show ?thesis by (cases a) simp
  next
    case None
    have "pre \<noteq> []"
    proof
      assume "pre = []"
      with "2.prems" have "match_placeholder (c # cs) = Some (k, post)"
        by (simp add: match_placeholder_iff)
      with None show False by simp
    qed
    then obtain pre' where "pre = c # pre'" "cs = pre' @ CHR ''['' # k @ CHR '']'' # post"
      using "2.prems"(1) by (cases pre) auto
    from "2.IH"(1)[OF None this(2) "2.prems"(2,3)] None show ?thesis by simp
  qed
qed

lemma no_keys_all_literal:
  "keys_of (scan_placeholders p) = [] \<Longrightarrow> scan_placeholders p = map Lit p"
proof (induction p rule: scan_placeholders.induct)
  case 1
  then show ?case by simp
next
  case (2 c cs)
  then show ?case by (cases "match_placeholder (c # cs)") auto
qed

lemma count_groups: "length (filter (\<lambda>n. n = Seg) (map node_of ps)) = length (keys_of ps)"
  by (induction ps rule: keys_of.induct) simp_all

lemma isDynamicRoute_occurs:
  "isDynamicRoute p \<longleftrightarrow>
     (\<exists>pre k post. p = pre @ CHR ''['' # k @ CHR '']'' # post \<and> k \<noteq> [] \<and> CHR '']'' \<notin> set k)"
proof (induction p)
  case Nil
  then show ?case by simp
next
  case (Cons c cs)
  show ?case
  proof
    assume "isDynamicRoute (c # cs)"
    then consider a where "match_placeholder (c # cs) = Some a" | "isDynamicRoute cs"
      by auto
    then show "\<exists>pre k post. c # cs = pre @ CHR ''['' # k @ CHR '']'' # post \<and> k \<noteq> [] \<and> CHR '']'' \<notin> set k"
    proof cases
      case 1
      obtain k rest where "a = (k, rest)" by (cases a)
      with 1 have "c # cs = [] @ CHR ''['' # k @ CHR '']'' # rest \<and> k \<noteq> [] \<and> CHR '']'' \<notin> set k"
        by (simp add: match_placeholder_iff)
      then show ?thesis by blast
    next
      case 2
      with Cons.IH obtain pre k post where
        "cs = pre @ CHR ''['' # k @ CHR '']'' # post" "k \<noteq> []" "CHR '']'' \<notin> set k"
        by blast
      then have "c # cs = (c # pre) @ CHR ''['' # k @ CHR '']'' # post \<and> k \<noteq> [] \<and> CHR '']'' \<notin> set k"
        by simp
      then show ?thesis by blast
    qed
  next
    assume "\<exists>pre k post. c # cs = pre @ CHR ''['' # k @ CHR '']'' # post \<and> k \<noteq> [] \<and> CHR '']'' \<notin> set k"
    then obtain pre k post where
      o: "c # cs = pre @ CHR ''['' # k @ CHR '']'' # post" "k \<noteq> []" "CHR '']'' \<notin> set k"
      by blast
    show "isDynamicRoute (c # cs)"
    proof (cases pre)
      case Nil
      with o have "match_placeholder (c # cs) = Some (k, post)"
        by (simp add: match_placeholder_iff)
      then show ?thesis by simp
    next
      case (Cons x pre')
      with o have "cs = pre' @ CHR ''['' # k @ CHR '']'' # post" by simp
      with o(2,3) Cons.IH have "isDynamicRoute cs" by blast
      then show ?thesis by simp
    qed
  qed
qed

lemma isDynamicRoute_keys: "isDynamicRoute p \<longleftrightarrow> extractParamKeys p \<noteq> []"
proof
  assume "isDynamicRoute p"
  then obtain pre k post where
    "p = pre @ CHR ''['' # k @ CHR '']'' # post" "k \<noteq> []" "CHR '']'' \<notin> set k"
    unfolding isDynamicRoute_occurs by blast
  then show "extractParamKeys p \<noteq> []"
    unfolding extractParamKeys_keys_of by (rule occurs_keys_of)
next
  assume "extractParamKeys p \<noteq> []"
  then obtain k where "k \<in> set (keys_of (scan_placeholders p))"
    unfolding extractParamKeys_keys_of by (cases "keys_of (scan_placeholders p)") auto
  from keys_of_occurs[OF this] show "isDynamicRoute p"
    unfolding isDynamicRoute_occurs by blast
qed

section \<open>Lemmas about building and matching\<close>

subsection \<open>Encoding and decoding\<close>

lemma of_char_less_256: "(of_char c :: nat) < 256"
proof -
  have "(of_char c :: nat) mod 256 < 256" by simp
  then show ?thesis by (simp only: of_char_mod_256)
qed

lemma upt_16: "[0..<16] = [0, 1, 2, 3, 4, 5, 6, 7, 8, 9, 10, 11, 12, 13, 14, 15 :: nat]"
  by code_simp

lemma hex_roundtrip: "n < 16 \<Longrightarrow> hex_value (hex_digit n) = Some n"
proof -
  assume "n < 16"
  then have "n \<in> set [0..<16]" by simp
  then have "n \<in> set [0, 1, 2, 3, 4, 5, 6, 7, 8, 9, 10, 11, 12, 13, 14, 15]"
    by (simp only: upt_16)
  then show ?thesis
    by (auto simp: hex_value_def hex_digit_def)
qed

lemma hex_digit_not_slash: "n < 16 \<Longrightarrow> hex_digit n \<noteq> CHR ''/''"
proof -
  assume "n < 16"
  then have "n \<in> set [0..<16]" by simp
  then have "n \<in> set [0, 1, 2, 3, 4, 5, 6, 7, 8, 9, 10, 11, 12, 13, 14, 15]"
    by (simp only: upt_16)
  then show ?thesis
    by (auto simp: hex_digit_def)
qed

lemma unreserved_not_percent: "uri_unreserved c \<Longrightarrow> c \<noteq> CHR ''%''"
  by (auto simp: uri_unreserved_def)

lemma unreserved_not_slash: "uri_unreserved c \<Longrightarrow> c \<noteq> CHR ''/''"
  by (auto simp: uri_unreserved_def)

lemma pct_tokens_pct_encode:
  "pct_tokens (pct_encode c @ r) = map_option (Cons (Octet (of_char c))) (pct_tokens r)"
proof -
  let ?n = "of_char c :: nat"
  have d: "?n div 16 < 16" and m: "?n mod 16 < 16"
    using of_char_less_256[of c] by arith+
  show ?thesis
    by (simp add: pct_encode_def hex_roundtrip[OF d] hex_roundtrip[OF m])
qed

lemma pct_tokens_encode: "pct_tokens (percent_encode v) = Some (map uri_tok v)"
proof (induction v)
  case Nil
  show ?case by (simp add: percent_encode_def)
next
  case (Cons c v)
  have e: "percent_encode (c # v) =
      (if uri_unreserved c then [c] else pct_encode c) @ percent_encode v"
    by (simp add: percent_encode_def)
  show ?case
  proof (cases "uri_unreserved c")
    case True
    then show ?thesis
      using Cons unreserved_not_percent[OF True] by (simp add: e uri_tok_def)
  next
    case False
    then show ?thesis
      using Cons by (simp only: e if_False pct_tokens_pct_encode uri_tok_def list.map option.map)
  qed
qed

lemma utf8_octets_ascii:
  "\<forall>c\<in>set v. (of_char c :: nat) < 128 \<Longrightarrow> utf8_octets (map uri_tok v) = Some v"
  by (induction v) (simp_all add: uri_tok_def)

lemma decode_encode_ascii:
  "\<forall>c\<in>set v. (of_char c :: nat) < 128 \<Longrightarrow> decodeURIComponent (percent_encode v) = Inr v"
  by (simp add: decodeURIComponent_def pct_tokens_encode utf8_octets_ascii)

lemma utf8_octets_ascii_bytes:
  "\<forall>c\<in>set v. (of_char c :: nat) < 128 \<Longrightarrow>
     utf8_octets (map (\<lambda>c. Octet (of_char c)) v) = Some v"
  by (induction v) simp_all

lemma well_formed_ascii: "\<forall>c\<in>set v. (of_char c :: nat) < 128 \<Longrightarrow> well_formed v"
  by (simp add: well_formed_def utf8_octets_ascii_bytes)

lemma encodeURIComponent_ascii:
  "\<forall>c\<in>set v. (of_char c :: nat) < 128 \<Longrightarrow> encodeURIComponent v = Inr (percent_encode v)"
  by (simp add: encodeURIComponent_def well_formed_ascii)

lemma substitute_bound:
  "\<forall>k\<in>set (keys_of ps). \<exists>v. m k = Some v \<and> (\<forall>c\<in>set v. (of_char c :: nat) < 128) \<Longrightarrow>
     substitute m route ps = Inr (concat (map (fill m) ps))"
proof (induction ps rule: keys_of.induct)
  case 1
  show ?case by simp
next
  case (2 c ps)
  then show ?case by simp
next
  case (3 key ps)
  then obtain v where v: "m key = Some v" "\<forall>c\<in>set v. (of_char c :: nat) < 128" by auto
  from "3.prems" have "substitute m route ps = Inr (concat (map (fill m) ps))"
    by (intro "3.IH") simp
  then show ?case
    using v by (simp add: get_property_def to_string_def encodeURIComponent_ascii)
qed

lemma slash_notin_pct_encode: "CHR ''/'' \<notin> set (pct_encode c)"
proof -
  let ?n = "of_char c :: nat"
  have d: "?n div 16 < 16" and m: "?n mod 16 < 16"
    using of_char_less_256[of c] by arith+
  show ?thesis
    using hex_digit_not_slash[OF d] hex_digit_not_slash[OF m] by (auto simp: pct_encode_def)
qed

lemma slash_notin_encode: "CHR ''/'' \<notin> set (percent_encode v)"
  using slash_notin_pct_encode unreserved_not_slash
  by (auto simp: percent_encode_def split: if_splits)

lemma encode_eq_Nil: "percent_encode v = [] \<longleftrightarrow> v = []"
  by (cases v) (auto simp: percent_encode_def pct_encode_def)

subsection \<open>Running the regular expression\<close>

lemma first_some_None: "(\<And>x. x \<in> set xs \<Longrightarrow> f x = None) \<Longrightarrow> first_some f xs = None"
  by (induction xs) simp_all

lemma first_some_SomeD: "first_some f xs = Some y \<Longrightarrow> \<exists>x\<in>set xs. f x = Some y"
  by (induction xs) (auto split: option.splits)

lemma regexp_exec_Bol: "regexp_exec (Bol # ns) s = re_run ns True s"
proof -
  let ?f = "\<lambda>i. re_run (Bol # ns) (i = 0) (drop i s)"
  have u: "[0..<Suc (length s)] = 0 # [1..<Suc (length s)]"
    by (simp add: upt_rec)
  have n: "first_some ?f [1..<Suc (length s)] = None"
    by (rule first_some_None) auto
  have z: "?f 0 = re_run ns True s" by simp
  have "regexp_exec (Bol # ns) s = (case ?f 0 of Some y \<Rightarrow> Some y | None \<Rightarrow> first_some ?f [1..<Suc (length s)])"
    unfolding regexp_exec_def u by (simp only: first_some.simps)
  then show ?thesis
    unfolding z n by (simp split: option.splits)
qed

lemma seg_greedy:
  assumes "e \<noteq> []" and "CHR ''/'' \<notin> set e" and "t = [] \<or> hd t = CHR ''/''"
    and "re_run ns False t = Some caps"
  shows "re_run (Seg # ns) b (e @ t) = Some (e # caps)"
proof -
  let ?P = "\<lambda>x. x \<noteq> CHR ''/''"
  have "takeWhile ?P t = []"
    using assms(3) by (cases t) auto
  moreover have "takeWhile ?P (e @ t) = e @ takeWhile ?P t"
    by (rule takeWhile_append2) (use assms(2) in auto)
  ultimately have t: "takeWhile ?P (e @ t) = e" by simp
  have le: "Suc 0 \<le> length e" using assms(1) by (simp add: Suc_le_eq)
  show ?thesis
    by (simp add: t le assms(4))
qed

lemma seg_matchD:
  assumes "re_run (Seg # ns) b s = Some caps"
  shows "\<exists>n caps'. 1 \<le> n \<and> n \<le> length (takeWhile (\<lambda>x. x \<noteq> CHR ''/'') s)
           \<and> re_run ns False (drop n s) = Some caps' \<and> caps = take n s # caps'"
proof -
  let ?L = "length (takeWhile (\<lambda>x. x \<noteq> CHR ''/'') s)"
  let ?f = "\<lambda>k. map_option (Cons (take k s)) (re_run ns False (drop k s))"
  have "first_some ?f (rev [1..<Suc ?L]) = Some caps"
    using assms by simp
  then have "\<exists>n\<in>set (rev [1..<Suc ?L]). ?f n = Some caps"
    by (rule first_some_SomeD)
  then obtain n where n: "n \<in> set (rev [1..<Suc ?L])" and r: "?f n = Some caps"
    by blast
  from n have b: "1 \<le> n" "n \<le> ?L" by auto
  from r obtain caps' where "re_run ns False (drop n s) = Some caps'" "caps = take n s # caps'"
    by (cases "re_run ns False (drop n s)") auto
  with b show ?thesis by blast
qed

lemma re_run_filled:
  assumes "delimited ps"
    and "\<forall>k\<in>set (keys_of ps). \<exists>v. m k = Some v \<and> v \<noteq> []"
  shows "re_run (map node_of ps @ [Eol]) b (concat (map (fill m) ps)) =
           Some (map (\<lambda>k. percent_encode (the (m k))) (keys_of ps))"
  using assms
proof (induction ps arbitrary: b rule: delimited.induct)
  case 1
  show ?case by simp
next
  case (2 c ps)
  then show ?case by simp
next
  case (3 key ps)
  then obtain v where v: "m key = Some v" "v \<noteq> []" by auto
  from "3.prems"(1) have f: "ps = [] \<or> hd ps = Lit CHR ''/''" and d: "delimited ps"
    by simp_all
  from "3.prems"(2) have ks: "\<forall>k\<in>set (keys_of ps). \<exists>v. m k = Some v \<and> v \<noteq> []"
    by simp
  let ?t = "concat (map (fill m) ps)"
  have t: "?t = [] \<or> hd ?t = CHR ''/''"
  proof (cases ps)
    case Nil
    then show ?thesis by simp
  next
    case (Cons q qs)
    with f have "q = Lit CHR ''/''" by simp
    with Cons show ?thesis by simp
  qed
  have ih: "re_run (map node_of ps @ [Eol]) False ?t =
      Some (map (\<lambda>k. percent_encode (the (m k))) (keys_of ps))"
    by (rule "3.IH"[OF d ks])
  have "re_run (Seg # map node_of ps @ [Eol]) b (percent_encode v @ ?t) =
        Some (percent_encode v # map (\<lambda>k. percent_encode (the (m k))) (keys_of ps))"
    using v(2) t ih by (intro seg_greedy) (simp_all add: encode_eq_Nil slash_notin_encode)
  then show ?case
    using v by simp
qed

lemma assign_params_map:
  assumes "\<forall>k\<in>set keys. \<exists>v. m k = Some v \<and> decodeURIComponent (g k) = Inr v"
    and "''__proto__'' \<notin> set keys"
  shows "assign_params keys (pre @ map g keys) (length pre) r =
           Inr (\<lambda>x. if x \<in> set keys then m x else r x)"
  using assms
proof (induction keys arbitrary: pre r)
  case Nil
  show ?case by simp
next
  case (Cons key keys)
  then obtain v where v: "m key = Some v" "decodeURIComponent (g key) = Inr v" by auto
  from Cons.prems(2) have np: "key \<noteq> ''__proto__''" and rest: "''__proto__'' \<notin> set keys"
    by auto
  have sp: "set_property r key v = r(key \<mapsto> v)"
    using np by (simp add: set_property_def)
  have "assign_params keys ((pre @ [g key]) @ map g keys) (length (pre @ [g key])) (r(key \<mapsto> v)) =
      Inr (\<lambda>x. if x \<in> set keys then m x else (r(key \<mapsto> v)) x)"
    using Cons.prems(1) rest by (intro Cons.IH) simp_all
  then have "assign_params keys (pre @ g key # map g keys) (Suc (length pre)) (r(key \<mapsto> v)) =
      Inr (\<lambda>x. if x \<in> set keys then m x else (r(key \<mapsto> v)) x)"
    by simp
  moreover have "(\<lambda>x. if x \<in> set keys then m x else (r(key \<mapsto> v)) x) =
      (\<lambda>x. if x \<in> set (key # keys) then m x else r x)"
    using v by (auto simp: fun_eq_iff)
  ultimately show ?case
    using v by (simp add: nth_append sp)
qed

text \<open>
  The key \<open>__proto__\<close>: the path matches and the object returned has no property.
\<close>

lemma matchRoute_proto_name:
  "buildPath ''/[__proto__]'' (Some [''__proto__'' \<mapsto> ''v'']) = Inr ''/v''
   \<and> matchRoute ''/v'' ''/[__proto__]'' = Inr (Some Map.empty)"
  by (simp add: buildPath_def match_placeholder_def get_property_def to_string_def
      encodeURIComponent_def well_formed_def percent_encode_def uri_unreserved_def
      matchRoute_def routeToRegex_nodes regexp_exec_Bol extractParamKeys_def slice_1_m1_def
      decodeURIComponent_def set_property_def)

subsection \<open>Segments\<close>

lemma segments_ne: "segments s \<noteq> []"
  by (induction s) (auto split: list.splits)

lemma segments_append_free:
  "CHR ''/'' \<notin> set a \<Longrightarrow> segments (a @ b) = (a @ hd (segments b)) # tl (segments b)"
proof (induction a)
  case Nil
  show ?case using segments_ne[of b] by simp
next
  case (Cons c a)
  then show ?case by (auto split: list.splits)
qed

lemma text_scan: "concat (map piece_text (scan_placeholders p)) = p"
proof (induction p rule: scan_placeholders.induct)
  case 1
  show ?case by simp
next
  case (2 c cs)
  show ?case
  proof (cases "match_placeholder (c # cs)")
    case None
    with "2.IH"(1) show ?thesis by simp
  next
    case (Some a)
    obtain k rest where a: "a = (k, rest)" by (cases a)
    from Some a have "c # cs = CHR ''['' # k @ CHR '']'' # rest"
      by (simp add: match_placeholder_iff)
    with "2.IH"(2)[OF Some a[symmetric]] Some a show ?thesis by simp
  qed
qed

lemma run_segments:
  assumes "\<forall>k\<in>set (keys_of ps). k \<noteq> [] \<and> CHR '']'' \<notin> set k \<and> CHR ''/'' \<notin> set k"
    and "re_run (map node_of ps @ [Eol]) b s = Some caps"
  shows "list_all2 (\<lambda>a t. \<not> isDynamicRoute a \<longrightarrow> a = t)
           (segments (concat (map piece_text ps))) (segments s)"
  using assms
proof (induction ps arbitrary: b s caps)
  case Nil
  then have "s = []" by (simp split: if_splits)
  then show ?case by simp
next
  case (Cons p ps)
  let ?R = "\<lambda>a t. \<not> isDynamicRoute a \<longrightarrow> a = t"
  let ?X = "concat (map piece_text ps)"
  show ?case
  proof (cases p)
    case (Lit c)
    with Cons.prems(2) obtain s' where s: "s = c # s'"
      and r: "re_run (map node_of ps @ [Eol]) False s' = Some caps"
      by (cases s) (auto split: if_splits)
    have ih: "list_all2 ?R (segments ?X) (segments s')"
      using Cons.IH[OF _ r] Cons.prems(1) Lit by simp
    show ?thesis
    proof (cases "c = CHR ''/''")
      case True
      with ih show ?thesis by (simp add: Lit s)
    next
      case False
      obtain a0 as where a: "segments ?X = a0 # as"
        using segments_ne[of ?X] by (cases "segments ?X") auto
      obtain t0 ts where t: "segments s' = t0 # ts"
        using segments_ne[of s'] by (cases "segments s'") auto
      from ih a t have "?R a0 t0" "list_all2 ?R as ts" by simp_all
      then show ?thesis
        using False by (simp add: Lit s a t)
    qed
  next
    case (Param k)
    with Cons.prems(1) have k: "k \<noteq> []" "CHR '']'' \<notin> set k" "CHR ''/'' \<notin> set k"
      by simp_all
    from Cons.prems(2) Param have "re_run (Seg # map node_of ps @ [Eol]) b s = Some caps"
      by simp
    from seg_matchD[OF this] obtain n caps' where
      n: "1 \<le> n" "n \<le> length (takeWhile (\<lambda>x. x \<noteq> CHR ''/'') s)"
      and r: "re_run (map node_of ps @ [Eol]) False (drop n s) = Some caps'"
      by blast
    have ih: "list_all2 ?R (segments ?X) (segments (drop n s))"
      using Cons.IH[OF _ r] Cons.prems(1) Param by simp
    obtain a0 as where a: "segments ?X = a0 # as"
      using segments_ne[of ?X] by (cases "segments ?X") auto
    obtain t0 ts where t: "segments (drop n s) = t0 # ts"
      using segments_ne[of "drop n s"] by (cases "segments (drop n s)") auto
    have "take n s = take n (takeWhile (\<lambda>x. x \<noteq> CHR ''/'') s)"
      using n(2) by (metis append_eq_conv_conj take_append takeWhile_dropWhile_id diff_is_0_eq take_0 append_Nil2)
    then have free: "CHR ''/'' \<notin> set (take n s)"
      by (metis (mono_tags, lifting) in_set_takeD set_takeWhileD)
    have "segments s = segments (take n s @ drop n s)" by simp
    also have "\<dots> = (take n s @ t0) # ts"
      using segments_append_free[OF free, of "drop n s"] t by simp
    finally have ss: "segments s = (take n s @ t0) # ts" .
    have "CHR ''/'' \<notin> set (CHR ''['' # k @ '']'')" using k(3) by simp
    from segments_append_free[OF this, of ?X] a
    have sp: "segments (concat (map piece_text (p # ps))) = (CHR ''['' # k @ CHR '']'' # a0) # as"
      by (simp add: Param)
    have "match_placeholder (CHR ''['' # k @ CHR '']'' # a0) = Some (k, a0)"
      using k by (simp add: match_placeholder_iff)
    then have "isDynamicRoute (CHR ''['' # k @ CHR '']'' # a0)" by simp
    moreover from ih a t have "list_all2 ?R as ts" by simp
    ultimately show ?thesis
      by (simp only: sp ss list_all2_Cons simp_thms)
  qed
qed

subsection \<open>Route patterns of the data model\<close>

text \<open>
  A route path as the scanner builds it, from segments that are free of brackets or one
  bracketed name, has every placeholder followed by \<open>/\<close> or at its end, and no
  \<open>/\<close> in a placeholder name.
\<close>

lemma scan_plain:
  "CHR ''['' \<notin> set a \<Longrightarrow> scan_placeholders (a @ r) = map Lit a @ scan_placeholders r"
proof (induction a)
  case Nil
  show ?case by simp
next
  case (Cons c a)
  then have "match_placeholder (c # a @ r) = None"
    by (auto simp: match_placeholder_def)
  with Cons show ?case by simp
qed

lemma scan_bracketed:
  "name \<noteq> [] \<Longrightarrow> CHR '']'' \<notin> set name \<Longrightarrow>
     scan_placeholders (CHR ''['' # name @ CHR '']'' # r) = Param name # scan_placeholders r"
proof -
  assume "name \<noteq> []" "CHR '']'' \<notin> set name"
  then have "match_placeholder (CHR ''['' # name @ CHR '']'' # r) = Some (name, r)"
    by (simp add: match_placeholder_iff)
  then show ?thesis by simp
qed

lemma delimited_plain: "delimited (map Lit a @ ps) = delimited ps"
  by (induction a) simp_all

lemma placeholder_segmentD:
  assumes "placeholder_segment s"
  shows "\<exists>name. s = CHR ''['' # name @ '']'' \<and> name \<noteq> [] \<and> CHR '']'' \<notin> set name"
proof -
  from assms have l: "2 < length s" and h: "hd s = CHR ''[''" and e: "last s = CHR '']''"
    and b: "bracket_free (butlast (tl s))"
    by (simp_all add: placeholder_segment_def)
  from l obtain t where s: "s = CHR ''['' # t" and t: "1 < length t"
    using h by (cases s) auto
  from t have tn: "t \<noteq> []" by auto
  with e s have "last t = CHR '']''" by simp
  with tn have "t = butlast t @ '']''"
    using append_butlast_last_id[of t] by simp
  moreover from t have "butlast t \<noteq> []"
    by (cases t) (auto split: if_splits)
  moreover from b s have "CHR '']'' \<notin> set (butlast t)"
    by (simp add: bracket_free_def)
  ultimately show ?thesis
    using s by (metis)
qed

lemma route_pattern_delimited:
  assumes "\<forall>s\<in>set segs. pattern_segment s"
  shows "delimited (scan_placeholders (concat (map ((#) CHR ''/'') segs)))"
  using assms
proof (induction segs)
  case Nil
  show ?case by simp
next
  case (Cons s segs)
  let ?R = "concat (map ((#) CHR ''/'') segs)"
  have ih: "delimited (scan_placeholders ?R)"
    using Cons by simp
  have first: "scan_placeholders (CHR ''/'' # s @ ?R) = Lit CHR ''/'' # scan_placeholders (s @ ?R)"
    by (simp add: match_placeholder_def)
  from Cons.prems have "bracket_free s \<or> placeholder_segment s"
    by (simp add: pattern_segment_def)
  then have "delimited (scan_placeholders (s @ ?R))"
  proof
    assume "bracket_free s"
    then have "scan_placeholders (s @ ?R) = map Lit s @ scan_placeholders ?R"
      by (intro scan_plain) (simp add: bracket_free_def)
    with ih show ?thesis by (simp add: delimited_plain)
  next
    assume "placeholder_segment s"
    from placeholder_segmentD[OF this] obtain name where
      n: "s = CHR ''['' # name @ '']''" "name \<noteq> []" "CHR '']'' \<notin> set name"
      by blast
    then have sc: "scan_placeholders (s @ ?R) = Param name # scan_placeholders ?R"
      using scan_bracketed[of name ?R] by simp
    have "scan_placeholders ?R = [] \<or> hd (scan_placeholders ?R) = Lit CHR ''/''"
    proof (cases segs)
      case Nil
      then show ?thesis by simp
    next
      case (Cons t ts)
      then show ?thesis by (simp add: match_placeholder_def)
    qed
    with ih sc show ?thesis by simp
  qed
  with first show ?case by simp
qed

lemma route_path_concat:
  "segs \<noteq> [] \<Longrightarrow> ''/'' @ join_with ''/'' segs = concat (map ((#) CHR ''/'') segs)"
  by (induction segs rule: induct_list012) simp_all

lemma scanned_route_path_delimited:
  assumes "\<forall>s\<in>set segs. pattern_segment s"
  shows "delimited (scan_placeholders (''/'' @ join_with ''/'' segs))"
proof (cases segs)
  case Nil
  then show ?thesis by (simp add: match_placeholder_def)
next
  case (Cons s ss)
  then have "segs \<noteq> []" by simp
  from route_path_concat[OF this] route_pattern_delimited[OF assms] show ?thesis
    by simp
qed

lemma keys_of_plain: "keys_of (map Lit a @ ps) = keys_of ps"
  by (induction a) simp_all

lemma route_pattern_keys:
  assumes "\<forall>s\<in>set segs. pattern_segment s"
  shows "\<forall>k\<in>set (keys_of (scan_placeholders (concat (map ((#) CHR ''/'') segs)))).
           CHR ''/'' \<notin> set k"
  using assms
proof (induction segs)
  case Nil
  show ?case by simp
next
  case (Cons s segs)
  let ?R = "concat (map ((#) CHR ''/'') segs)"
  have ih: "\<forall>k\<in>set (keys_of (scan_placeholders ?R)). CHR ''/'' \<notin> set k"
    using Cons by simp
  have first: "scan_placeholders (CHR ''/'' # s @ ?R) = Lit CHR ''/'' # scan_placeholders (s @ ?R)"
    by (simp add: match_placeholder_def)
  from Cons.prems have f: "CHR ''/'' \<notin> set s" and "bracket_free s \<or> placeholder_segment s"
    by (simp_all add: pattern_segment_def)
  from this(2) have "\<forall>k\<in>set (keys_of (scan_placeholders (s @ ?R))). CHR ''/'' \<notin> set k"
  proof
    assume "bracket_free s"
    then have "scan_placeholders (s @ ?R) = map Lit s @ scan_placeholders ?R"
      by (intro scan_plain) (simp add: bracket_free_def)
    with ih show ?thesis by (simp add: keys_of_plain)
  next
    assume "placeholder_segment s"
    from placeholder_segmentD[OF this] obtain name where
      n: "s = CHR ''['' # name @ '']''" "name \<noteq> []" "CHR '']'' \<notin> set name"
      by blast
    then have sc: "scan_placeholders (s @ ?R) = Param name # scan_placeholders ?R"
      using scan_bracketed[of name ?R] by simp
    from n(1) f have "CHR ''/'' \<notin> set name" by simp
    with ih sc show ?thesis by simp
  qed
  with first show ?case by simp
qed

lemma scanned_route_path_keys:
  assumes "\<forall>s\<in>set segs. pattern_segment s"
  shows "\<forall>k\<in>set (extractParamKeys (''/'' @ join_with ''/'' segs)). CHR ''/'' \<notin> set k"
proof (cases segs)
  case Nil
  then show ?thesis by (simp add: extractParamKeys_def match_placeholder_def)
next
  case (Cons s ss)
  then have "segs \<noteq> []" by simp
  from route_path_concat[OF this] route_pattern_keys[OF assms] show ?thesis
    by (simp add: extractParamKeys_keys_of)
qed

section \<open>Lemmas about the scanner\<close>

lemma all_files_prefix:
  "(path, name, content) \<in> set (all_files pre es) \<Longrightarrow> \<exists>sfx. path = pre @ sfx"
proof (induction pre es rule: all_files.induct)
  case (1 path)
  then show ?case by simp
next
  case (2 pre d sub es)
  from "2.prems" consider "(path, name, content) \<in> set (all_files (pre @ [d]) sub)"
    | "(path, name, content) \<in> set (all_files pre es)"
    by auto
  then show ?case
  proof cases
    case 1
    from "2.IH"(1)[OF this] obtain sfx where "path = (pre @ [d]) @ sfx" by blast
    then have "path = pre @ (d # sfx)" by simp
    then show ?thesis by blast
  next
    case 2
    then show ?thesis by (rule "2.IH"(2))
  qed
next
  case (3 pre f c es)
  then show ?case by auto
qed

lemma visited_from_self: "visited_from excl (length segs) segs"
  by (simp add: visited_from_def)

lemma visited_from_step:
  "visited_from excl (length segs) (segs @ d # sfx) \<longleftrightarrow>
     \<not> starts_with_underscore d
     \<and> \<not> excluded excl (''/'' @ join_with ''/'' (segs @ [d]))
     \<and> visited_from excl (Suc (length segs)) (segs @ d # sfx)"
proof -
  have "[length segs..<length (segs @ d # sfx)] =
      length segs # [Suc (length segs)..<length (segs @ d # sfx)]"
    by (rule upt_conv_Cons) simp
  then show ?thesis
    by (simp add: visited_from_def nth_append)
qed

lemma route_of_step:
  "route_of pjoin (pjoin dir d) (Suc (length segs)) (segs @ d # sfx, name, content) =
     route_of pjoin dir (length segs) (segs @ d # sfx, name, content)"
  by (simp add: route_of_def)

lemma walk_files:
  "walk pjoin excl dir segs es =
     map (route_of pjoin dir (length segs))
       (filter (\<lambda>(path, name, content). visited_from excl (length segs) path \<and> route_file name content)
          (all_files segs es))"
proof (induction pjoin excl dir segs es rule: walk.induct)
  case (1 pjoin excl dir segs)
  show ?case by simp
next
  case (2 pjoin excl dir segs d sub es)
  let ?n = "length segs"
  let ?ok = "\<lambda>n (path, name, content). visited_from excl n path \<and> route_file name content"
  let ?sub = "all_files (segs @ [d]) sub"
  have shape: "\<And>x. x \<in> set ?sub \<Longrightarrow> \<exists>sfx name content. x = (segs @ d # sfx, name, content)"
  proof -
    fix x assume x: "x \<in> set ?sub"
    obtain path name content where xe: "x = (path, name, content)" by (cases x)
    with x all_files_prefix[of path name content "segs @ [d]" sub]
    obtain sfx where "path = (segs @ [d]) @ sfx" by blast
    with xe show "\<exists>sfx name content. x = (segs @ d # sfx, name, content)" by simp
  qed
  show ?case
  proof (cases "starts_with_underscore d \<or> excluded excl (''/'' @ join_with ''/'' (segs @ [d]))")
    case True
    have "\<And>x. x \<in> set ?sub \<Longrightarrow> \<not> ?ok ?n x"
    proof -
      fix x assume "x \<in> set ?sub"
      from shape[OF this] obtain sfx name content where "x = (segs @ d # sfx, name, content)"
        by blast
      with True show "\<not> ?ok ?n x" by (auto simp: visited_from_step)
    qed
    then have "filter (?ok ?n) ?sub = []"
      by (simp add: filter_empty_conv)
    moreover have "walk pjoin excl dir segs ((d, Dir sub) # es) = walk pjoin excl dir segs es"
      using True by auto
    ultimately show ?thesis
      using True "2.IH"(1,2) by auto
  next
    case False
    then have nu: "\<not> starts_with_underscore d"
      and ne: "\<not> excluded excl (''/'' @ join_with ''/'' (segs @ [d]))"
      by simp_all
    have f: "filter (?ok (Suc ?n)) ?sub = filter (?ok ?n) ?sub"
    proof (rule filter_cong[OF refl])
      fix x assume "x \<in> set ?sub"
      from shape[OF this] obtain sfx name content where "x = (segs @ d # sfx, name, content)"
        by blast
      with nu ne show "?ok (Suc ?n) x = ?ok ?n x" by (simp add: visited_from_step)
    qed
    have m: "map (route_of pjoin (pjoin dir d) (Suc ?n)) (filter (?ok ?n) ?sub) =
        map (route_of pjoin dir ?n) (filter (?ok ?n) ?sub)"
    proof (rule map_cong[OF refl])
      fix x assume "x \<in> set (filter (?ok ?n) ?sub)"
      then have "x \<in> set ?sub" by simp
      from shape[OF this] obtain sfx name content where "x = (segs @ d # sfx, name, content)"
        by blast
      then show "route_of pjoin (pjoin dir d) (Suc ?n) x = route_of pjoin dir ?n x"
        by (simp add: route_of_step)
    qed
    have "walk pjoin excl (pjoin dir d) (segs @ [d]) sub =
        map (route_of pjoin dir ?n) (filter (?ok ?n) ?sub)"
      using "2.IH"(3)[OF nu ne] f m by simp
    moreover have "walk pjoin excl dir segs es =
        map (route_of pjoin dir ?n) (filter (?ok ?n) (all_files segs es))"
      by (rule "2.IH"(4)[OF nu ne])
    ultimately show ?thesis
      using nu ne by simp
  qed
next
  case (3 pjoin excl dir segs name content es)
  show ?case
  proof (cases "route_file name content")
    case True
    then have "walk pjoin excl dir segs es =
        map (route_of pjoin dir (length segs))
          (filter (\<lambda>(path, name, content). visited_from excl (length segs) path \<and> route_file name content)
             (all_files segs es))"
      using "3.IH"(2) by (auto simp: route_file_def)
    then show ?thesis
      using True by (auto simp: route_file_def route_of_def visited_from_self Let_def)
  next
    case False
    then have "walk pjoin excl dir segs es =
        map (route_of pjoin dir (length segs))
          (filter (\<lambda>(path, name, content). visited_from excl (length segs) path \<and> route_file name content)
             (all_files segs es))"
      using "3.IH"(1,3) by (auto simp: route_file_def)
    then show ?thesis
      using False by (auto simp: route_file_def)
  qed
qed

lemma walk_append:
  "walk pjoin excl dir segs (a @ b) = walk pjoin excl dir segs a @ walk pjoin excl dir segs b"
proof (induction a)
  case Nil
  show ?case by simp
next
  case (Cons e a)
  obtain name node where e: "e = (name, node)" by (cases e)
  show ?case
    using Cons by (cases node) (simp_all add: e Let_def)
qed

lemma visited_from_0:
  "visited_from excl 0 path \<longleftrightarrow>
     (\<forall>i<length path. \<not> starts_with_underscore (path ! i)
        \<and> \<not> excluded excl (''/'' @ join_with ''/'' (take (Suc i) path)))"
  by (auto simp: visited_from_def list_all_iff)

lemma uses_createRoute: "usesRouteCreator ''createRoute(''"
  by code_simp

subsection \<open>The content test\<close>

text \<open>
  No white-space character is the start of another one, and none starts with \<open>(\<close>:
  the greedy \<open>\s*\<close> of the scanner takes exactly the run of white space, and the
  test of \<open>usesRouteCreator\<close> is the one of \<open>has_route_call\<close>.
\<close>

lemma white_space_unit:
  "w \<in> set white_space \<Longrightarrow> w \<noteq> [] \<and> length w = unit_len (hd w)"
  by (auto simp: white_space_def unit_len_def)

lemma space_len_paren: "space_len (CHR ''('' # r) = 0"
  by (simp add: space_len_def white_space_def)

lemma space_len_Nil: "space_len [] = 0"
  by (simp add: space_len_def white_space_def)

lemma space_len_found:
  assumes "space_len s \<noteq> 0"
  shows "map of_char (take (space_len s) s) \<in> set white_space \<and> space_len s \<le> length s"
proof -
  let ?P = "\<lambda>w. map of_char (take (length w) s) = w"
  from assms obtain w where f: "find ?P white_space = Some w" and n: "space_len s = length w"
    by (auto simp: space_len_def split: option.splits)
  from f have w: "w \<in> set white_space" and p: "?P w"
    by (auto simp: find_Some_iff)
  from p have "length (map of_char (take (length w) s) :: nat list) = length w"
    by simp
  then have "length w \<le> length s"
    by simp
  with w p n show ?thesis
    by simp
qed

lemma space_len_prefix:
  assumes u: "u \<in> set white_space" and s: "map of_char s = u @ r"
  shows "space_len s = length u"
proof -
  let ?P = "\<lambda>w. map of_char (take (length w) s) = w"
  have "take (length u) (map of_char s) = u"
    using s by simp
  then have pu: "?P u"
    by (simp add: take_map)
  with u have "find ?P white_space \<noteq> None"
    by (auto simp: find_None_iff)
  then obtain w where f: "find ?P white_space = Some w"
    by auto
  then have w: "w \<in> set white_space" and pw: "?P w"
    by (auto simp: find_Some_iff)
  from white_space_unit[OF w] white_space_unit[OF u]
  have ne: "w \<noteq> []" "u \<noteq> []" and l: "length w = unit_len (hd w)" "length u = unit_len (hd u)"
    by auto
  from pw have "w = take (length w) (map of_char s)"
    by (simp add: take_map)
  with ne(1) have "hd w = hd (map of_char s)"
    by (metis hd_take length_greater_0_conv)
  moreover from s ne(2) have "hd u = hd (map of_char s)"
    by simp
  ultimately have "length w = length u"
    using l by simp
  with f show ?thesis
    by (simp add: space_len_def)
qed

lemma skip_space_unit:
  assumes u: "map of_char a \<in> set white_space"
  shows "skip_space (a @ r) = skip_space r"
proof -
  from white_space_unit[OF u] have "a \<noteq> []"
    by auto
  then obtain c cs where a: "a = c # cs"
    by (cases a) auto
  have "space_len (a @ r) = length (map of_char a :: nat list)"
    by (rule space_len_prefix[OF u, of _ "map of_char r"]) simp
  then have n: "space_len (c # cs @ r) = Suc (length cs)"
    by (simp add: a)
  show ?thesis
    unfolding a by (simp add: n del: skip_space.simps) (simp add: n)
qed

lemma skip_space_run:
  assumes "space_run ws"
  shows "skip_space (ws @ r) = skip_space r"
proof -
  from assms obtain us where us: "set us \<subseteq> set white_space" "map of_char ws = concat us"
    by (auto simp: space_run_def)
  then show ?thesis
  proof (induction us arbitrary: ws)
    case Nil
    then show ?case by simp
  next
    case (Cons u us)
    let ?a = "take (length u) ws"
    let ?b = "drop (length u) ws"
    have m: "map of_char ws = u @ concat us"
      using Cons.prems(2) by simp
    have a: "map of_char ?a = u"
      using arg_cong[OF m, of "take (length u)"] by (simp add: take_map)
    have b: "map of_char ?b = concat us"
      using arg_cong[OF m, of "drop (length u)"] by (simp add: drop_map)
    have "skip_space (?a @ (?b @ r)) = skip_space (?b @ r)"
      by (rule skip_space_unit) (use a Cons.prems(1) in simp)
    moreover have "skip_space (?b @ r) = skip_space r"
      using Cons.prems(1) b by (intro Cons.IH) simp_all
    ultimately show ?case
      by (metis append_assoc append_take_drop_id)
  qed
qed

lemma space_run_Nil: "space_run []"
  unfolding space_run_def by (rule exI[of _ "[]"]) simp

lemma space_run_Cons:
  assumes "map of_char a \<in> set white_space" "space_run ws"
  shows "space_run (a @ ws)"
proof -
  from assms(2) obtain us where "set us \<subseteq> set white_space" "map of_char ws = concat us"
    by (auto simp: space_run_def)
  with assms(1) show ?thesis
    unfolding space_run_def by (intro exI[of _ "map of_char a # us"]) simp
qed

lemma skip_space_split: "\<exists>ws. space_run ws \<and> s = ws @ skip_space s"
proof (induction s rule: skip_space.induct)
  case 1
  show ?case using space_run_Nil by simp
next
  case (2 c cs)
  show ?case
  proof (cases "space_len (c # cs) = 0")
    case True
    then show ?thesis using space_run_Nil by (intro exI[of _ "[]"]) simp
  next
    case False
    let ?n = "space_len (c # cs)"
    from space_len_found[OF False]
    have w: "map of_char (take ?n (c # cs)) \<in> set white_space" and le: "?n \<le> length (c # cs)"
      by auto
    from "2.IH"[OF False] obtain ws where
      ws: "space_run ws" "drop (?n - 1) cs = ws @ skip_space (drop (?n - 1) cs)"
      by auto
    have d: "drop (?n - 1) cs = drop ?n (c # cs)"
      using False by (cases ?n) auto
    have sk: "skip_space (c # cs) = skip_space (drop ?n (c # cs))"
      using False d by simp
    have "c # cs = take ?n (c # cs) @ drop ?n (c # cs)"
      by simp
    also have "\<dots> = (take ?n (c # cs) @ ws) @ skip_space (c # cs)"
      using ws(2) unfolding d sk by simp
    finally have "c # cs = (take ?n (c # cs) @ ws) @ skip_space (c # cs)" .
    moreover have "space_run (take ?n (c # cs) @ ws)"
      by (rule space_run_Cons[OF w ws(1)])
    ultimately show ?thesis
      by blast
  qed
qed

lemma skip_space_paren: "skip_space (CHR ''('' # r) = CHR ''('' # r"
  by (simp add: space_len_paren)

lemma paren_after_space:
  "starts_with (skip_space t) ''('' \<longleftrightarrow> (\<exists>ws post. space_run ws \<and> t = ws @ ''('' @ post)"
proof
  assume "starts_with (skip_space t) ''(''"
  then obtain post where p: "skip_space t = CHR ''('' # post"
    by (cases "skip_space t") (auto simp: starts_with_def)
  from skip_space_split[of t] obtain ws where "space_run ws" "t = ws @ skip_space t"
    by auto
  with p show "\<exists>ws post. space_run ws \<and> t = ws @ ''('' @ post"
    by (intro exI[of _ ws] exI[of _ post]) simp
next
  assume "\<exists>ws post. space_run ws \<and> t = ws @ ''('' @ post"
  then obtain ws post where "space_run ws" "t = ws @ CHR ''('' # post"
    by auto
  then show "starts_with (skip_space t) ''(''"
    by (simp add: skip_space_run skip_space_paren starts_with_def del: skip_space.simps)
qed

lemma starts_with_iff: "starts_with s p \<longleftrightarrow> (\<exists>rest. s = p @ rest)"
  unfolding starts_with_def
  by (metis append_eq_conv_conj append_take_drop_id)

lemma call_at_iff:
  "call_at s \<longleftrightarrow>
     (\<exists>name ws post. s = name @ ws @ ''('' @ post
        \<and> (name = ''createRoute'' \<or> name = ''createDynamicRoute'') \<and> space_run ws)"
  (is "?L \<longleftrightarrow> ?R")
proof -
  have one: "(starts_with s name \<and> starts_with (skip_space (drop (length name) s)) ''('')
      \<longleftrightarrow> (\<exists>ws post. s = name @ ws @ ''('' @ post \<and> space_run ws)" for name
  proof
    assume a: "starts_with s name \<and> starts_with (skip_space (drop (length name) s)) ''(''"
    then obtain rest where r: "s = name @ rest"
      by (auto simp: starts_with_iff)
    with a have "starts_with (skip_space rest) ''(''"
      by simp
    then obtain ws post where "space_run ws" "rest = ws @ ''('' @ post"
      unfolding paren_after_space by blast
    with r show "\<exists>ws post. s = name @ ws @ ''('' @ post \<and> space_run ws"
      by blast
  next
    assume "\<exists>ws post. s = name @ ws @ ''('' @ post \<and> space_run ws"
    then obtain ws post where s: "s = name @ ws @ ''('' @ post" and w: "space_run ws"
      by blast
    have "starts_with s name"
      unfolding starts_with_iff using s by blast
    moreover have "drop (length name) s = ws @ ''('' @ post"
      using s by simp
    then have "starts_with (skip_space (drop (length name) s)) ''(''"
      unfolding paren_after_space using w by blast
    ultimately show "starts_with s name \<and> starts_with (skip_space (drop (length name) s)) ''(''"
      by simp
  qed
  have "?L \<longleftrightarrow> (\<exists>ws post. s = ''createRoute'' @ ws @ ''('' @ post \<and> space_run ws)
      \<or> (\<exists>ws post. s = ''createDynamicRoute'' @ ws @ ''('' @ post \<and> space_run ws)"
    unfolding call_at_def one[symmetric] by simp
  also have "\<dots> \<longleftrightarrow> ?R"
    by blast
  finally show ?thesis .
qed

lemma call_at_Nil: "\<not> call_at []"
  by (simp add: call_at_def starts_with_def)

lemma find_call_iff:
  "find_call prev s \<longleftrightarrow>
     (\<exists>pre rest. s = pre @ rest \<and> call_at rest
        \<and> (if pre = [] then \<not> prev else \<not> word_char (last pre)))"
proof (induction s arbitrary: prev)
  case Nil
  show ?case by (simp add: call_at_Nil)
next
  case (Cons c cs)
  let ?Q = "\<lambda>prev s pre rest. s = pre @ rest \<and> call_at rest
        \<and> (if pre = [] then \<not> prev else \<not> word_char (last pre))"
  have "(\<exists>pre rest. ?Q prev (c # cs) pre rest) \<longleftrightarrow>
      (\<not> prev \<and> call_at (c # cs)) \<or> (\<exists>pre rest. ?Q (word_char c) cs pre rest)"
  proof
    assume "\<exists>pre rest. ?Q prev (c # cs) pre rest"
    then obtain pre rest where q: "?Q prev (c # cs) pre rest"
      by blast
    show "(\<not> prev \<and> call_at (c # cs)) \<or> (\<exists>pre rest. ?Q (word_char c) cs pre rest)"
    proof (cases pre)
      case Nil
      with q show ?thesis by simp
    next
      case (Cons x pre')
      with q have "?Q (word_char c) cs pre' rest"
        by (auto split: if_splits)
      then show ?thesis by blast
    qed
  next
    assume "(\<not> prev \<and> call_at (c # cs)) \<or> (\<exists>pre rest. ?Q (word_char c) cs pre rest)"
    then show "\<exists>pre rest. ?Q prev (c # cs) pre rest"
    proof
      assume "\<not> prev \<and> call_at (c # cs)"
      then have "?Q prev (c # cs) [] (c # cs)"
        by simp
      then show ?thesis by blast
    next
      assume "\<exists>pre rest. ?Q (word_char c) cs pre rest"
      then obtain pre rest where "?Q (word_char c) cs pre rest"
        by blast
      then have "?Q prev (c # cs) (c # pre) rest"
        by (auto split: if_splits)
      then show ?thesis by blast
    qed
  qed
  then show ?case
    by (simp add: Cons.IH)
qed

lemma usesRouteCreator_iff: "usesRouteCreator content \<longleftrightarrow> has_route_call content"
proof -
  have "usesRouteCreator content \<longleftrightarrow>
      (\<exists>pre rest. content = pre @ rest \<and> call_at rest \<and> (pre = [] \<or> \<not> word_char (last pre)))"
    unfolding usesRouteCreator_def find_call_iff by (intro iff_exI) auto
  also have "\<dots> \<longleftrightarrow> has_route_call content"
    unfolding call_at_iff has_route_call_def by blast
  finally show ?thesis .
qed

section \<open>The properties of the specification\<close>

text \<open>
  C2 does not hold of the code. The name \<open>constructor\<close> is absent from the empty
  value map, yet \<open>params["constructor"]\<close> reads the function \<open>Object\<close> from
  \<open>Object.prototype\<close>, which is not \<open>undefined\<close>: \<open>buildPath\<close> throws
  nothing and returns the path with the encoded text of that function.
\<close>

theorem buildPath_inherited_key:
  "buildPath ''/[constructor]'' (Some Map.empty)
     = Inr ''/function%20Object()%20%7B%20%5Bnative%20code%5D%20%7D''"
  by (simp add: buildPath_def match_placeholder_def get_property_def object_prototype_names_def
      to_string_def encodeURIComponent_def well_formed_def percent_encode_def uri_unreserved_def
      pct_encode_def hex_digit_def)

text \<open>
  C10: with the \<open>params\<close> argument omitted, \<open>buildPath\<close> returns the route
  unchanged, whatever placeholders it has; a missing-parameter error needs a supplied
  value map.
\<close>

theorem buildPath_params_omitted:
  "buildPath route None = Inr route
   \<and> ((\<exists>k. buildPath route given = Inl (MissingParam k route)) \<longrightarrow> given \<noteq> None)"
  by (cases given) (auto simp: buildPath_def)

theorem buildPath_params_omitted_witness:
  "buildPath ''/user/[id]'' None = Inr ''/user/[id]''
   \<and> (\<exists>k. buildPath ''/user/[id]'' (Some Map.empty) = Inl (MissingParam k ''/user/[id]''))
   \<and> Some (Map.empty :: string \<rightharpoonup> string) \<noteq> None"
  using buildPath_params_omitted[of "''/user/[id]''" "Some Map.empty"]
  by (simp add: buildPath_def match_placeholder_def get_property_def object_prototype_names_def)

text \<open>
  C4, as the code has it: a placeholder is a \<open>[\<close>, one or more characters other
  than \<open>]\<close> (a \<open>/\<close> or a \<open>[\<close> may be among them) and a \<open>]\<close>. Every
  extracted name is non-empty, has no \<open>]\<close> and stands in the route between a
  \<open>[\<close> and a \<open>]\<close>; a route without such a token (its brackets are all empty or
  unterminated) has no name and its regular expression is the route's own characters,
  without a group; there are as many groups as names.
\<close>

theorem placeholder_tokens:
  "(\<forall>k \<in> set (extractParamKeys p).
       k \<noteq> [] \<and> CHR '']'' \<notin> set k \<and> (\<exists>pre post. p = pre @ CHR ''['' # k @ CHR '']'' # post))
   \<and> (extractParamKeys p = [] \<longleftrightarrow>
        \<not> (\<exists>pre k post. p = pre @ CHR ''['' # k @ CHR '']'' # post \<and> k \<noteq> [] \<and> CHR '']'' \<notin> set k))
   \<and> (extractParamKeys p = [] \<longrightarrow> routeToRegex p = Some (Bol # map Chr p @ [Eol]))
   \<and> (\<exists>re. routeToRegex p = Some re
          \<and> length (filter (\<lambda>n. n = Seg) re) = length (extractParamKeys p))"
proof (intro conjI)
  show "\<forall>k \<in> set (extractParamKeys p).
       k \<noteq> [] \<and> CHR '']'' \<notin> set k \<and> (\<exists>pre post. p = pre @ CHR ''['' # k @ CHR '']'' # post)"
    unfolding extractParamKeys_keys_of using keys_of_occurs by blast
  show "extractParamKeys p = [] \<longleftrightarrow>
        \<not> (\<exists>pre k post. p = pre @ CHR ''['' # k @ CHR '']'' # post \<and> k \<noteq> [] \<and> CHR '']'' \<notin> set k)"
    using isDynamicRoute_keys[of p] isDynamicRoute_occurs[of p] by blast
  show "extractParamKeys p = [] \<longrightarrow> routeToRegex p = Some (Bol # map Chr p @ [Eol])"
    by (simp add: extractParamKeys_keys_of routeToRegex_nodes no_keys_all_literal comp_def)
  show "\<exists>re. routeToRegex p = Some re
          \<and> length (filter (\<lambda>n. n = Seg) re) = length (extractParamKeys p)"
    using count_groups[of "scan_placeholders p"]
    by (simp add: routeToRegex_nodes extractParamKeys_keys_of)
qed

theorem placeholder_tokens_witness:
  "extractParamKeys ''/a/[]/[x'' = []
   \<and> routeToRegex ''/a/[]/[x'' = Some (Bol # map Chr ''/a/[]/[x'' @ [Eol])
   \<and> extractParamKeys ''/[id]/[]'' = [''id'']
   \<and> (\<exists>re. routeToRegex ''/[id]/[]'' = Some re \<and> length (filter (\<lambda>n. n = Seg) re) = 1)"
proof -
  have k1: "extractParamKeys ''/a/[]/[x'' = []"
    by (simp add: extractParamKeys_def match_placeholder_def)
  have k2: "extractParamKeys ''/[id]/[]'' = [''id'']"
    by (simp add: extractParamKeys_def match_placeholder_def slice_1_m1_def)
  show ?thesis
    using placeholder_tokens[of "''/a/[]/[x''"] placeholder_tokens[of "''/[id]/[]''"]
    by (simp add: k1 k2)
qed

text \<open>
  C4 as stated fails: the brackets of \<open>/[a/b]\<close> span a \<open>/\<close>, and the code
  extracts the name \<open>a/b\<close> and builds a capture group for it.
\<close>

theorem placeholder_spans_slash:
  "extractParamKeys ''/[a/b]'' = [''a/b'']
   \<and> routeToRegex ''/[a/b]'' = Some [Bol, Chr CHR ''/'', Seg, Eol]"
  by (simp add: extractParamKeys_def match_placeholder_def slice_1_m1_def routeToRegex_nodes)

text \<open>
  C8: the text \<open>routePathToRegexString\<close> writes into the generated route table
  compiles to the very regular expression \<open>routeToRegex\<close> builds at run time: the
  same nodes in the same order, one group per placeholder, so both match the same
  paths with the same captures.
\<close>

theorem generated_regex_agrees:
  "regexp_compile (routePathToRegexString p) = routeToRegex p
   \<and> routeToRegex p = Some (Bol # map node_of (scan_placeholders p) @ [Eol])"
  by (simp add: routeToRegex_nodes routePathToRegexString_nodes)

text \<open>
  C1, as the code has it: when every placeholder of the route is followed at once by
  \<open>/\<close> or ends the route (so when each placeholder is a whole segment) and the map
  binds every parameter name to a non-empty string of ASCII characters (URL-safe
  characters, percent-encoded text and also \<open>/\<close>, blanks and so on), \<open>buildPath\<close>
  succeeds and \<open>matchRoute\<close> on the built path returns exactly the bindings of the
  route's names, provided that no name is \<open>__proto__\<close>. Every route path made of
  segments that are free of brackets or one bracketed name is such a route (lemma
  \<open>scanned_route_path_delimited\<close>). The name \<open>__proto__\<close> is set apart because
  \<open>result[key] = ...\<close> on that key calls the accessor of \<open>Object.prototype\<close> and
  makes no property (lemma \<open>matchRoute_proto_name\<close>).
\<close>

theorem build_then_match:
  assumes "delimited (scan_placeholders p)"
    and "\<forall>k\<in>set (extractParamKeys p).
           \<exists>v. m k = Some v \<and> v \<noteq> [] \<and> (\<forall>c\<in>set v. (of_char c :: nat) < 128)"
    and "''__proto__'' \<notin> set (extractParamKeys p)"
  shows "\<exists>path. buildPath p (Some m) = Inr path
           \<and> matchRoute path p = Inr (Some (m |` set (extractParamKeys p)))"
proof -
  let ?ps = "scan_placeholders p"
  let ?keys = "keys_of ?ps"
  let ?g = "\<lambda>k. percent_encode (the (m k))"
  let ?path = "concat (map (fill m) ?ps)"
  have keys: "extractParamKeys p = ?keys"
    by (rule extractParamKeys_keys_of)
  have vals: "\<forall>k\<in>set ?keys. \<exists>v. m k = Some v \<and> v \<noteq> [] \<and> (\<forall>c\<in>set v. (of_char c :: nat) < 128)"
    using assms(2) by (simp only: keys)
  have np: "''__proto__'' \<notin> set ?keys"
    using assms(3) by (simp add: keys)
  have "\<forall>k\<in>set ?keys. \<exists>v. m k = Some v \<and> (\<forall>c\<in>set v. (of_char c :: nat) < 128)"
    using vals by blast
  then have "substitute m p ?ps = Inr ?path"
    by (rule substitute_bound)
  then have bp: "buildPath p (Some m) = Inr ?path"
    by (simp add: buildPath_def)
  have "re_run (map node_of ?ps @ [Eol]) True ?path = Some (map ?g ?keys)"
    using assms(1) vals by (intro re_run_filled) auto
  then have ex: "regexp_exec (Bol # map node_of ?ps @ [Eol]) ?path = Some (map ?g ?keys)"
    by (simp only: regexp_exec_Bol)
  have "\<forall>k\<in>set ?keys. \<exists>v. m k = Some v \<and> decodeURIComponent (?g k) = Inr v"
    using vals by (auto simp: decode_encode_ascii)
  then have "assign_params ?keys ([] @ map ?g ?keys) (length ([] :: string list)) Map.empty =
      Inr (\<lambda>x. if x \<in> set ?keys then m x else Map.empty x)"
    by (rule assign_params_map) (rule np)
  then have asg: "assign_params ?keys (map ?g ?keys) 0 Map.empty = Inr (m |` set ?keys)"
    by (simp add: restrict_map_def)
  have "matchRoute ?path p = Inr (Some (m |` set ?keys))"
    by (simp add: matchRoute_def routeToRegex_nodes ex keys asg)
  with bp keys show ?thesis by simp
qed

theorem build_then_match_witness:
  "buildPath ''/user/[id]/post/[postId]'' (Some [''id'' \<mapsto> ''a b'', ''postId'' \<mapsto> ''456''])
     = Inr ''/user/a%20b/post/456''
   \<and> matchRoute ''/user/a%20b/post/456'' ''/user/[id]/post/[postId]''
     = Inr (Some ([''id'' \<mapsto> ''a b'', ''postId'' \<mapsto> ''456''] |` {''id'', ''postId''}))"
proof -
  let ?p = "''/user/[id]/post/[postId]''"
  let ?m = "[''id'' \<mapsto> ''a b'', ''postId'' \<mapsto> ''456'']"
  have k: "extractParamKeys ?p = [''id'', ''postId'']"
    by (simp add: extractParamKeys_def match_placeholder_def slice_1_m1_def)
  have d: "delimited (scan_placeholders ?p)"
    by (simp add: match_placeholder_def)
  have v: "\<forall>k\<in>set (extractParamKeys ?p).
      \<exists>v. ?m k = Some v \<and> v \<noteq> [] \<and> (\<forall>c\<in>set v. (of_char c :: nat) < 128)"
    by (simp add: k)
  have n: "''__proto__'' \<notin> set (extractParamKeys ?p)"
    by (simp add: k)
  have b: "buildPath ?p (Some ?m) = Inr ''/user/a%20b/post/456''"
    by (simp add: buildPath_def match_placeholder_def get_property_def to_string_def
        encodeURIComponent_def well_formed_def percent_encode_def uri_unreserved_def
        pct_encode_def hex_digit_def)
  from build_then_match[OF d v n] obtain path where
    p1: "buildPath ?p (Some ?m) = Inr path" and
    p2: "matchRoute path ?p = Inr (Some (?m |` set (extractParamKeys ?p)))"
    by blast
  from p1 have pe: "path = ''/user/a%20b/post/456''"
    unfolding b by (simp only: sum.inject)
  have ks: "set (extractParamKeys ?p) = {''id'', ''postId''}"
    unfolding k by simp
  show ?thesis
    by (rule conjI[OF b p2[unfolded pe ks]])
qed

text \<open>
  C1 as stated fails on the empty string, which has no \<open>/\<close> and no unsafe
  character: \<open>buildPath\<close> accepts it, and the path it builds has an empty segment
  that the group \<open>([^/]+)\<close> does not match.
\<close>

theorem empty_value_not_recovered:
  "buildPath ''/user/[id]'' (Some [''id'' \<mapsto> '''']) = Inr ''/user/''
   \<and> matchRoute ''/user/'' ''/user/[id]'' = Inr None"
  by (simp add: buildPath_def match_placeholder_def get_property_def to_string_def
      encodeURIComponent_def well_formed_def percent_encode_def
      matchRoute_def routeToRegex_nodes regexp_exec_Bol)

text \<open>
  C3, as the code has it: for a pattern none of whose placeholder names contains a
  \<open>/\<close>, a path with another number of segments, or with a segment that differs
  from a segment of the pattern that has no placeholder, is answered with \<open>null\<close>
  (\<open>Inr None\<close>: a value, not an error). Every route path made of segments that are
  free of brackets or one bracketed name is such a pattern (lemma
  \<open>scanned_route_path_keys\<close>).
\<close>

theorem matchRoute_no_match:
  assumes "\<forall>k\<in>set (extractParamKeys p). CHR ''/'' \<notin> set k"
    and "length (segments path) \<noteq> length (segments p)
         \<or> (\<exists>i. i < length (segments p) \<and> i < length (segments path)
                \<and> \<not> isDynamicRoute (segments p ! i) \<and> segments path ! i \<noteq> segments p ! i)"
  shows "matchRoute path p = Inr None"
proof -
  let ?ps = "scan_placeholders p"
  let ?R = "\<lambda>a t. \<not> isDynamicRoute a \<longrightarrow> a = t"
  have "regexp_exec (Bol # map node_of ?ps @ [Eol]) path = None"
  proof (rule ccontr)
    assume "regexp_exec (Bol # map node_of ?ps @ [Eol]) path \<noteq> None"
    then obtain caps where "re_run (map node_of ?ps @ [Eol]) True path = Some caps"
      by (auto simp: regexp_exec_Bol)
    moreover have "\<forall>k\<in>set (keys_of ?ps). k \<noteq> [] \<and> CHR '']'' \<notin> set k \<and> CHR ''/'' \<notin> set k"
      using assms(1) keys_of_occurs[of _ p] by (auto simp: extractParamKeys_keys_of)
    ultimately have "list_all2 ?R (segments (concat (map piece_text ?ps))) (segments path)"
      by (intro run_segments)
    then have l: "list_all2 ?R (segments p) (segments path)"
      by (simp only: text_scan)
    then have "length (segments p) = length (segments path)"
      by (rule list_all2_lengthD)
    moreover have "\<And>i. i < length (segments p) \<Longrightarrow> ?R (segments p ! i) (segments path ! i)"
      using l by (rule list_all2_nthD)
    ultimately show False
      using assms(2) by auto
  qed
  then show ?thesis
    by (simp add: matchRoute_def routeToRegex_nodes)
qed

theorem matchRoute_no_match_witness:
  "matchRoute ''/user/1/post/2'' ''/user/[id]'' = Inr None
   \<and> matchRoute ''/users/1'' ''/user/[id]'' = Inr None"
proof -
  let ?p = "''/user/[id]''"
  have k: "\<forall>k\<in>set (extractParamKeys ?p). CHR ''/'' \<notin> set k"
    by (simp add: extractParamKeys_def match_placeholder_def slice_1_m1_def)
  have h1: "length (segments ''/user/1/post/2'') \<noteq> length (segments ?p)
         \<or> (\<exists>i. i < length (segments ?p) \<and> i < length (segments ''/user/1/post/2'')
                \<and> \<not> isDynamicRoute (segments ?p ! i)
                \<and> segments ''/user/1/post/2'' ! i \<noteq> segments ?p ! i)"
    by simp
  have "1 < length (segments ?p) \<and> 1 < length (segments ''/users/1'')
                \<and> \<not> isDynamicRoute (segments ?p ! 1)
                \<and> segments ''/users/1'' ! 1 \<noteq> segments ?p ! 1"
    by (simp add: match_placeholder_def)
  then have h2: "length (segments ''/users/1'') \<noteq> length (segments ?p)
         \<or> (\<exists>i. i < length (segments ?p) \<and> i < length (segments ''/users/1'')
                \<and> \<not> isDynamicRoute (segments ?p ! i)
                \<and> segments ''/users/1'' ! i \<noteq> segments ?p ! i)"
    by blast
  from matchRoute_no_match[OF k h1] matchRoute_no_match[OF k h2] show ?thesis
    by simp
qed

text \<open>
  C3 as stated fails where brackets span a \<open>/\<close>: the pattern \<open>/[a/b]\<close> has three
  segments, the path \<open>/x\<close> has two, and still the path matches.
\<close>

theorem bracket_across_segments_matches:
  "length (segments ''/x'') \<noteq> length (segments ''/[a/b]'')
   \<and> matchRoute ''/x'' ''/[a/b]'' = Inr (Some [''a/b'' \<mapsto> ''x''])"
  by (simp add: matchRoute_def routeToRegex_nodes regexp_exec_Bol match_placeholder_def
      extractParamKeys_def slice_1_m1_def decodeURIComponent_def set_property_def)

text \<open>
  C5: every record the scanner returns is the record of a file of the tree on whose
  directory path (from the root down) no name starts with \<open>_\<close> and no cumulative
  path is rejected by the exclusion predicate; and a directory entry whose name starts
  with \<open>_\<close>, or whose cumulative path the predicate rejects, can be taken out of its
  parent's listing, subtree and all, without changing what the walk returns.
\<close>

theorem skipped_directories_contribute_nothing:
  "(scanRoutes pjoin app excl (Some (Dir es)) = Inr rs \<longrightarrow>
      (\<forall>r\<in>set rs. \<exists>path name content.
          (path, name, content) \<in> set (all_files [] es)
          \<and> r = route_of pjoin app 0 (path, name, content)
          \<and> (\<forall>i<length path. \<not> starts_with_underscore (path ! i)
                \<and> \<not> excluded excl (''/'' @ join_with ''/'' (take (Suc i) path)))))
   \<and> (starts_with_underscore name \<or> excluded excl (''/'' @ join_with ''/'' (segs @ [name])) \<longrightarrow>
        walk pjoin excl dir segs (before @ (name, Dir sub) # after) =
        walk pjoin excl dir segs (before @ after))"
proof (intro conjI impI ballI)
  fix r
  assume s: "scanRoutes pjoin app excl (Some (Dir es)) = Inr rs" and r: "r \<in> set rs"
  let ?ok = "\<lambda>(path, name, content). visited_from excl 0 path \<and> route_file name content"
  from s have "rs = map (route_of pjoin app 0) (filter ?ok (all_files [] es))"
    using walk_files[of pjoin excl app "[]" es] by (simp add: scanRoutes_def)
  with r obtain f where f: "f \<in> set (all_files [] es)" "?ok f" "r = route_of pjoin app 0 f"
    by auto
  obtain path name content where fe: "f = (path, name, content)" by (cases f)
  with f(2) have "visited_from excl 0 path" by simp
  then have "\<forall>i<length path. \<not> starts_with_underscore (path ! i)
      \<and> \<not> excluded excl (''/'' @ join_with ''/'' (take (Suc i) path))"
    by (simp only: visited_from_0)
  with f(1,3) fe show "\<exists>path name content.
      (path, name, content) \<in> set (all_files [] es)
      \<and> r = route_of pjoin app 0 (path, name, content)
      \<and> (\<forall>i<length path. \<not> starts_with_underscore (path ! i)
            \<and> \<not> excluded excl (''/'' @ join_with ''/'' (take (Suc i) path)))"
    by blast
next
  assume "starts_with_underscore name \<or> excluded excl (''/'' @ join_with ''/'' (segs @ [name]))"
  then have "walk pjoin excl dir segs ((name, Dir sub) # after) = walk pjoin excl dir segs after"
    by auto
  then show "walk pjoin excl dir segs (before @ (name, Dir sub) # after) =
      walk pjoin excl dir segs (before @ after)"
    by (simp only: walk_append)
qed

theorem skipped_directories_contribute_nothing_witness:
  "scanRoutes (\<lambda>d n. d @ ''/'' @ n) ''app'' (Some (\<lambda>p. p = ''/admin''))
      (Some (Dir [(''_private'', Dir [(''page.tsx'', File ''createRoute('')]),
                  (''admin'', Dir [(''page.tsx'', File ''createRoute('')]),
                  (''page.tsx'', File ''createRoute('')]))
     = Inr [\<lparr>filePath = ''app/page.tsx'', routePath = ''/'', params = [], isStatic = True\<rparr>]
   \<and> (\<exists>path name content.
        (path, name, content) \<in> set (all_files []
            [(''_private'', Dir [(''page.tsx'', File ''createRoute('')]),
             (''admin'', Dir [(''page.tsx'', File ''createRoute('')]),
             (''page.tsx'', File ''createRoute('')])
        \<and> \<lparr>filePath = ''app/page.tsx'', routePath = ''/'', params = [], isStatic = True\<rparr>
            = route_of (\<lambda>d n. d @ ''/'' @ n) ''app'' 0 (path, name, content)
        \<and> (\<forall>i<length path. \<not> starts_with_underscore (path ! i)
              \<and> \<not> excluded (Some (\<lambda>p. p = ''/admin'')) (''/'' @ join_with ''/'' (take (Suc i) path))))
   \<and> walk (\<lambda>d n. d @ ''/'' @ n) (Some (\<lambda>p. p = ''/admin'')) ''app'' []
        ([] @ (''_private'', Dir [(''page.tsx'', File ''createRoute('')]) # [(''page.tsx'', File ''createRoute('')])
     = walk (\<lambda>d n. d @ ''/'' @ n) (Some (\<lambda>p. p = ''/admin'')) ''app'' []
        ([] @ [(''page.tsx'', File ''createRoute('')])"
proof -
  let ?pj = "\<lambda>d n. d @ ''/'' @ n"
  let ?ex = "Some (\<lambda>p. p = ''/admin'')"
  let ?es = "[(''_private'', Dir [(''page.tsx'', File ''createRoute('')]),
              (''admin'', Dir [(''page.tsx'', File ''createRoute('')]),
              (''page.tsx'', File ''createRoute('')]"
  let ?r = "\<lparr>filePath = ''app/page.tsx'', routePath = ''/'', params = [], isStatic = True\<rparr>"
  have s: "scanRoutes ?pj ''app'' ?ex (Some (Dir ?es)) = Inr [?r]"
    by (simp add: scanRoutes_def starts_with_underscore_def starts_with_def excluded_def
        uses_createRoute extractParamKeys_def match_placeholder_def)
  have u: "starts_with_underscore ''_private''"
    by (simp add: starts_with_underscore_def starts_with_def)
  note t = skipped_directories_contribute_nothing[where pjoin = ?pj and app = "''app''"
      and excl = ?ex and es = ?es and rs = "[?r]" and name = "''_private''" and segs = "[]"
      and dir = "''app''" and before = "[]" and sub = "[(''page.tsx'', File ''createRoute('')]"
      and after = "[(''page.tsx'', File ''createRoute('')]"]
  from t s u show ?thesis
    by (simp del: walk.simps all_files.simps)
qed

text \<open>
  C6: the scanner returns, in the order of the walk, one record for each file that the
  walk reaches (C5), is named \<open>page.tsx\<close> or \<open>page.ts\<close> and has in its text
  \<open>createRoute\<close> or \<open>createDynamicRoute\<close>, not right after a letter, digit or
  \<open>_\<close>, followed by any white space and \<open>(\<close>; it returns nothing else. The route
  pattern of a record is \<open>/\<close> followed by the directory names from the root to the
  file's directory joined by \<open>/\<close>, so \<open>/\<close> for a file of the root itself.
\<close>

theorem scanned_routes_are_the_route_files:
  "scanRoutes pjoin app excl (Some (Dir es)) =
     Inr (map (route_of pjoin app 0)
            (filter (\<lambda>(path, name, content). visited_from excl 0 path
                       \<and> (name = ''page.tsx'' \<or> name = ''page.ts'') \<and> has_route_call content)
               (all_files [] es)))
   \<and> routePath (route_of pjoin app 0 (path, name, content)) = ''/'' @ join_with ''/'' path
   \<and> routePath (route_of pjoin app 0 ([], name, content)) = ''/''"
  using walk_files[of pjoin excl app "[]" es]
  by (simp add: scanRoutes_def route_of_def route_file_def usesRouteCreator_iff)

theorem scanned_routes_are_the_route_files_witness:
  "map (route_of (\<lambda>d n. d @ ''/'' @ n) ''app'' 0)
     (filter (\<lambda>(path, name, content). visited_from None 0 path
                \<and> (name = ''page.tsx'' \<or> name = ''page.ts'') \<and> has_route_call content)
        (all_files []
           [(''page.tsx'', File ''export default createRoute()''),
            (''notes.ts'', File ''createRoute(''),
            (''about'', Dir [(''page.ts'', File (''x=createDynamicRoute'' @ [CHR 0x09, CHR 0xC2, CHR 0xA0] @ ''({})'')),
                            (''page.tsx'', File ''plain ('')]),
            (''old'', Dir [(''page.tsx'', File ''recreateRoute()''),
                          (''page.ts'', File ''createRoute.call()'')]),
            (''user'', Dir [(''[id]'', Dir [(''page.tsx'', File ''createDynamicRoute ('')])])]))
   = [\<lparr>filePath = ''app/page.tsx'', routePath = ''/'', params = [], isStatic = True\<rparr>,
      \<lparr>filePath = ''app/about/page.ts'', routePath = ''/about'', params = [], isStatic = True\<rparr>,
      \<lparr>filePath = ''app/user/[id]/page.tsx'', routePath = ''/user/[id]'', params = [''id''],
        isStatic = False\<rparr>]
   \<and> has_route_call (''x=createDynamicRoute'' @ [CHR 0x09, CHR 0xC2, CHR 0xA0] @ ''({})'')
   \<and> \<not> has_route_call ''plain (''
   \<and> \<not> has_route_call ''recreateRoute()''
   \<and> \<not> has_route_call ''createRoute.call()''"
proof -
  let ?pj = "\<lambda>d n. d @ ''/'' @ n"
  let ?dyn = "''x=createDynamicRoute'' @ [CHR 0x09, CHR 0xC2, CHR 0xA0] @ ''({})''"
  let ?es = "[(''page.tsx'', File ''export default createRoute()''),
            (''notes.ts'', File ''createRoute(''),
            (''about'', Dir [(''page.ts'', File ?dyn), (''page.tsx'', File ''plain ('')]),
            (''old'', Dir [(''page.tsx'', File ''recreateRoute()''),
                          (''page.ts'', File ''createRoute.call()'')]),
            (''user'', Dir [(''[id]'', Dir [(''page.tsx'', File ''createDynamicRoute ('')])])]"
  have u1: "usesRouteCreator ''export default createRoute()''"
    by code_simp
  have u2: "usesRouteCreator ?dyn"
    by code_simp
  have u3: "usesRouteCreator ''createDynamicRoute (''"
    by code_simp
  have n1: "\<not> usesRouteCreator ''plain (''"
    by code_simp
  have n2: "\<not> usesRouteCreator ''recreateRoute()''"
    by code_simp
  have n3: "\<not> usesRouteCreator ''createRoute.call()''"
    by code_simp
  have s: "scanRoutes ?pj ''app'' None (Some (Dir ?es)) =
      Inr [\<lparr>filePath = ''app/page.tsx'', routePath = ''/'', params = [], isStatic = True\<rparr>,
      \<lparr>filePath = ''app/about/page.ts'', routePath = ''/about'', params = [], isStatic = True\<rparr>,
      \<lparr>filePath = ''app/user/[id]/page.tsx'', routePath = ''/user/[id]'', params = [''id''],
        isStatic = False\<rparr>]"
    using u1 u2 u3 n1 n2 n3
    by (simp add: scanRoutes_def starts_with_underscore_def starts_with_def excluded_def
        extractParamKeys_def match_placeholder_def slice_1_m1_def)
  from scanned_routes_are_the_route_files[of ?pj "''app''" None ?es] s
  have "map (route_of ?pj ''app'' 0)
     (filter (\<lambda>(path, name, content). visited_from None 0 path
                \<and> (name = ''page.tsx'' \<or> name = ''page.ts'') \<and> has_route_call content)
        (all_files [] ?es))
   = [\<lparr>filePath = ''app/page.tsx'', routePath = ''/'', params = [], isStatic = True\<rparr>,
      \<lparr>filePath = ''app/about/page.ts'', routePath = ''/about'', params = [], isStatic = True\<rparr>,
      \<lparr>filePath = ''app/user/[id]/page.tsx'', routePath = ''/user/[id]'', params = [''id''],
        isStatic = False\<rparr>]"
    by (simp only: sum.inject)
  with u2 n1 n2 n3 show ?thesis
    by (simp only: usesRouteCreator_iff simp_thms)
qed

text \<open>
  C7: when nothing exists at the root path, \<open>scanRoutes\<close> returns the empty list
  of records, and no error.
\<close>

theorem missing_root_scans_empty:
  "scanRoutes pjoin app excl None = Inr []"
  by (simp add: scanRoutes_def)

end
